theory Spec2Isabelle
  imports Main
begin

section \<open>The Filecoin chain simulator: \<^verbatim>\<open>chains/filecoin/src/blockchain.ts\<close>\<close>

subsection \<open>Data model\<close>

text \<open>
  Content identifiers (\<^verbatim>\<open>CID\<close>, \<^verbatim>\<open>RootCID\<close>) are opaque values. The source draws
  them at random (\<^verbatim>\<open>new CID()\<close>); the model takes every drawn identifier as an
  argument of the operation that draws it. A \<^verbatim>\<open>Deal\<close> is a mutable object shared by
  the arrays \<^verbatim>\<open>deals\<close> and \<^verbatim>\<open>inProcessDeals\<close> and by \<^verbatim>\<open>dealsByCid\<close>; the model
  keeps the objects in a store and the arrays hold references (indices into it).
\<close>

type_synonym cid = nat
type_synonym ref = nat

text \<open>
  Modelled from the spec: the enum \<^verbatim>\<open>DealState\<close> of \<^verbatim>\<open>dealstates.ts\<close>, which is
  not among the sources. The source names \<^verbatim>\<open>DealState.Validating\<close> and
  \<^verbatim>\<open>DealState.Active\<close>; the spec gives the machine
  \<^verbatim>\<open>Proposed -> Validating -> Staged -> Active\<close> with an absorbing \<^verbatim>\<open>Failed\<close>.
\<close>

datatype DealState = Proposed | Validating | Staged | Active | Failed

datatype Miner = NewMiner
datatype Address = NewAddress
datatype Balance = NewBalance

record Block =
  b_miner :: "Miner option"
  parents :: "cid option list"

record Tipset =
  cids :: "cid list"
  blocks :: "Block list"
  height :: int

record Deal =
  proposalCid :: cid
  state :: DealState
  message :: string
  provider :: Miner
  pieceCid :: cid
  size_d :: int
  pricePerEpoch :: int
  duration :: int
  dealId :: int

record StorageProposal =
  epochPrice :: int
  minBlocksDuration :: int

text \<open>\<^verbatim>\<open>Partial<BlockchainOptions>\<close>: a key that is absent is \<open>None\<close>.\<close>

record BlockchainOptions =
  opt_automining :: "bool option"
  opt_blockTime :: "int option"
  opt_ipfsPort :: "int option"

text \<open>
  Modelled from the spec: the sidecar \<^verbatim>\<open>IPFSServer\<close> of \<^verbatim>\<open>ipfsserver.ts\<close>, which is
  not among the sources; the spec gives it \<^verbatim>\<open>start()\<close> and \<^verbatim>\<open>stop()\<close>. The record
  keeps the port it was built with and whether each call has completed.
\<close>

record IPFSServer =
  port :: int
  started :: bool
  stopped :: bool

datatype Event = Ready | DealStateChanged ref

text \<open>
  The callback the constructor hands to \<^verbatim>\<open>setTimeout\<close> runs once, in two parts
  separated by \<^verbatim>\<open>await this.ipfsServer.start()\<close>.
\<close>

datatype Startup = Scheduled | AwaitingStart | Completed

datatype error = TypeError

text \<open>
  The fields of the class, then the parts of the run-time the class relies on: the
  store of \<^verbatim>\<open>Deal\<close> objects, the events emitted so far, the listeners registered
  with \<^verbatim>\<open>on("ready", resolve)\<close>, the promises of \<^verbatim>\<open>waitForReady\<close> resolved so far,
  and the progress of the start-up callback.
\<close>

record Blockchain =
  tipsets :: "Tipset list"
  miner :: Miner
  address :: Address
  balance :: Balance
  deals :: "ref list"
  dealsByCid :: "cid \<rightharpoonup> ref"
  inProcessDeals :: "ref list"
  automining :: bool
  blockTime :: int
  ipfsPort :: int
  ipfsServer :: "IPFSServer option"
  miningTimeout :: "int option"
  ready :: bool
  store :: "Deal list"
  emitted :: "Event list"
  readyListeners :: "nat list"
  resolved :: "nat list"
  startup :: Startup

subsection \<open>Construction\<close>

text \<open>
  \<^verbatim>\<open>Object.assign(this, options)\<close> over the field initialisers, then the override of
  \<^verbatim>\<open>automining\<close>, the genesis tipset and the scheduling of the start-up callback.
  \<open>genesisCid\<close> is the identifier \<^verbatim>\<open>new RootCID()\<close> draws.
\<close>

definition constructor :: "cid \<Rightarrow> BlockchainOptions \<Rightarrow> Blockchain" where
  "constructor genesisCid options =
     (let automining0 = (case opt_automining options of None \<Rightarrow> True | Some a \<Rightarrow> a);
          blockTime0 = (case opt_blockTime options of None \<Rightarrow> 0 | Some t \<Rightarrow> t);
          ipfsPort0 = (case opt_ipfsPort options of None \<Rightarrow> 5001 | Some p \<Rightarrow> p);
          automining1 = (if blockTime0 > 0 then False else automining0)
      in \<lparr> tipsets = [\<lparr> cids = [genesisCid],
                         blocks = [\<lparr> b_miner = None, parents = [] \<rparr>],
                         height = 0 \<rparr>],
           miner = NewMiner,
           address = NewAddress,
           balance = NewBalance,
           deals = [],
           dealsByCid = Map.empty,
           inProcessDeals = [],
           automining = automining1,
           blockTime = blockTime0,
           ipfsPort = ipfsPort0,
           ipfsServer = None,
           miningTimeout = None,
           ready = False,
           store = [],
           emitted = [],
           readyListeners = [],
           resolved = [],
           startup = Scheduled \<rparr>)"

text \<open>The interval timer is armed exactly under the guard of the start-up callback.\<close>

definition intervalConfigured :: "Blockchain \<Rightarrow> bool" where
  "intervalConfigured bc = (\<not> automining bc \<and> blockTime bc \<noteq> 0)"

subsection \<open>Tipsets\<close>

definition genesisTipset :: "Blockchain \<Rightarrow> Tipset option" where
  "genesisTipset bc = (case tipsets bc of [] \<Rightarrow> None | t # _ \<Rightarrow> Some t)"

definition latestTipset :: "Blockchain \<Rightarrow> Tipset option" where
  "latestTipset bc = (if tipsets bc = [] then None else Some (last (tipsets bc)))"

text \<open>\<^verbatim>\<open>previousTipset.cids[0]\<close>: reading past the end of an array gives \<^verbatim>\<open>undefined\<close>.\<close>

definition firstCid :: "Tipset \<Rightarrow> cid option" where
  "firstCid t = (case cids t of [] \<Rightarrow> None | c # _ \<Rightarrow> Some c)"

text \<open>The loop of \<^verbatim>\<open>mineTipset\<close> that fills \<^verbatim>\<open>newBlocks\<close>.\<close>

function newBlocksLoop :: "Miner \<Rightarrow> cid option \<Rightarrow> int \<Rightarrow> int \<Rightarrow> Block list \<Rightarrow> Block list" where
  "newBlocksLoop m p numNewBlocks i newBlocks =
     (if i < numNewBlocks
      then newBlocksLoop m p numNewBlocks (i + 1)
             (newBlocks @ [\<lparr> b_miner = Some m, parents = [p] \<rparr>])
      else newBlocks)"
  by pat_completeness auto
termination
  by (relation "measure (\<lambda>(m, p, n, i, bs). nat (n - i))") auto

text \<open>\<^verbatim>\<open>Array.prototype.indexOf\<close> (strict equality, \<open>-1\<close> when absent) and
  \<^verbatim>\<open>splice(start, 1)\<close> (a negative start counts from the end).\<close>

fun indexOf :: "'a list \<Rightarrow> 'a \<Rightarrow> int" where
  "indexOf [] x = - 1"
| "indexOf (y # ys) x =
     (if y = x then 0 else (let r = indexOf ys x in if r < 0 then - 1 else r + 1))"

definition splice1 :: "int \<Rightarrow> 'a list \<Rightarrow> 'a list" where
  "splice1 start xs =
     (let len = int (length xs);
          s = (if start < 0 then max (len + start) 0 else min start len)
      in take (nat s) xs @ drop (nat s + 1) xs)"

lemma length_splice1: "length (splice1 start xs) \<le> length xs"
  by (simp add: splice1_def Let_def)

text \<open>
  The \<^verbatim>\<open>for (const deal of this.inProcessDeals)\<close> loop. An array iterator keeps an
  index; every step compares it with the array's current length and reads the element
  at the index, so a \<^verbatim>\<open>splice\<close> inside the body moves the elements under the iterator.
  \<open>advanceState\<close> is the method \<^verbatim>\<open>Deal.advanceState\<close> of \<^verbatim>\<open>things/deal.ts\<close>, which is
  not among the sources: a parameter.
\<close>

function advanceDeals :: "(bool \<Rightarrow> Deal \<Rightarrow> Deal) \<Rightarrow> nat \<Rightarrow> Blockchain \<Rightarrow> Blockchain" where
  "advanceDeals advanceState i bc =
     (if i < length (inProcessDeals bc) then
        (let deal = inProcessDeals bc ! i;
             bc1 = bc\<lparr> store := (store bc)[deal := advanceState (automining bc) (store bc ! deal)] \<rparr>;
             bc2 = bc1\<lparr> emitted := emitted bc1 @ [DealStateChanged deal] \<rparr>;
             bc3 = (if state (store bc2 ! deal) = Active
                    then bc2\<lparr> inProcessDeals :=
                           splice1 (indexOf (inProcessDeals bc2) deal) (inProcessDeals bc2) \<rparr>
                    else bc2)
         in advanceDeals advanceState (i + 1) bc3)
      else bc)"
  by pat_completeness auto
termination
  apply (relation "measure (\<lambda>(a, i, bc). length (inProcessDeals bc) - i)")
   apply simp
  subgoal for advanceState i bc deal bc1 bc2 bc3
    using length_splice1 [of "indexOf (inProcessDeals bc) deal" "inProcessDeals bc"]
    by (auto split: if_splits)
  done

text \<open>
  \<^verbatim>\<open>mineTipset(numNewBlocks = 1)\<close>. With no tipset, \<^verbatim>\<open>latestTipset()\<close> is
  \<^verbatim>\<open>undefined\<close> and reading its \<^verbatim>\<open>blocks\<close> throws before anything is changed.
  \<open>tipsetCids\<close> is what the constructor of \<^verbatim>\<open>Tipset\<close> (\<^verbatim>\<open>things/tipset.ts\<close>, not
  among the sources) makes of a tipset built without \<^verbatim>\<open>cids\<close>: a parameter.
\<close>

definition mineTipset ::
  "(bool \<Rightarrow> Deal \<Rightarrow> Deal) \<Rightarrow> (Block list \<Rightarrow> cid list) \<Rightarrow> int \<Rightarrow> Blockchain \<Rightarrow> error + Blockchain" where
  "mineTipset advanceState tipsetCids numNewBlocks bc =
     (case latestTipset bc of
        None \<Rightarrow> Inl TypeError
      | Some previousTipset \<Rightarrow>
          (let newBlocks = newBlocksLoop (miner bc) (firstCid previousTipset) numNewBlocks 0 [];
               newTipset = \<lparr> cids = tipsetCids newBlocks,
                             blocks = newBlocks,
                             height = height previousTipset + 1 \<rparr>;
               bc1 = bc\<lparr> tipsets := tipsets bc @ [newTipset] \<rparr>
           in Inr (advanceDeals advanceState 0 bc1)))"

subsection \<open>Deals\<close>

text \<open>
  Modelled from the spec: \<^verbatim>\<open>Deal.advanceState\<close> (\<^verbatim>\<open>things/deal.ts\<close>, not among the
  sources), as the spec describes the per-block advancement: the state moves exactly
  one step along \<^verbatim>\<open>Proposed -> Validating -> Staged -> Active\<close>; \<^verbatim>\<open>Active\<close> is
  terminal and \<^verbatim>\<open>Failed\<close> absorbing. The spec gives the flag no effect on the step.
\<close>

fun nextState :: "DealState \<Rightarrow> DealState" where
  "nextState Proposed = Validating"
| "nextState Validating = Staged"
| "nextState Staged = Active"
| "nextState Active = Active"
| "nextState Failed = Failed"

definition advanceStep :: "bool \<Rightarrow> Deal \<Rightarrow> Deal" where
  "advanceStep fullyAdvance d = d\<lparr> state := nextState (state d) \<rparr>"

text \<open>The object \<^verbatim>\<open>new Deal({...})\<close> of \<^verbatim>\<open>startDeal\<close>.\<close>

definition newDeal :: "cid \<Rightarrow> cid \<Rightarrow> StorageProposal \<Rightarrow> Blockchain \<Rightarrow> Deal" where
  "newDeal proposalCid0 pieceCid0 proposal bc =
     \<lparr> proposalCid = proposalCid0,
       state = Validating,
       message = [],
       provider = miner bc,
       pieceCid = pieceCid0,
       size_d = 2032,
       pricePerEpoch = epochPrice proposal,
       duration = minBlocksDuration proposal,
       dealId = int (length (deals bc)) + 1 \<rparr>"

text \<open>
  One turn of \<^verbatim>\<open>while (deal.state != DealState.Active) { this.mineTipset(); }\<close>.
  \<^verbatim>\<open>mineTipset\<close> is \<^verbatim>\<open>async\<close> and is not awaited: its body runs to the end inside the
  call (it has no \<^verbatim>\<open>await\<close>), and a throw inside it becomes a rejected promise that
  nobody reads, so the loop goes on with the state as it is.
\<close>

definition mineOnce ::
  "(bool \<Rightarrow> Deal \<Rightarrow> Deal) \<Rightarrow> (Block list \<Rightarrow> cid list) \<Rightarrow> Blockchain \<Rightarrow> Blockchain" where
  "mineOnce advanceState tipsetCids bc =
     (case mineTipset advanceState tipsetCids 1 bc of Inl e \<Rightarrow> bc | Inr bc' \<Rightarrow> bc')"

partial_function (option) mineUntilActive ::
  "(bool \<Rightarrow> Deal \<Rightarrow> Deal) \<Rightarrow> (Block list \<Rightarrow> cid list) \<Rightarrow> ref \<Rightarrow> Blockchain \<Rightarrow> Blockchain option" where
  "mineUntilActive advanceState tipsetCids deal bc =
     (if state (store bc ! deal) \<noteq> Active
      then mineUntilActive advanceState tipsetCids deal (mineOnce advanceState tipsetCids bc)
      else Some bc)"

text \<open>
  \<^verbatim>\<open>startDeal(proposal)\<close>; \<open>proposalCid0\<close> and \<open>pieceCid0\<close> are the identifiers
  drawn by \<^verbatim>\<open>new CID()\<close> and \<^verbatim>\<open>new RootCID()\<close>. A loop that never ends is \<open>None\<close>.
\<close>

definition startDeal ::
  "(bool \<Rightarrow> Deal \<Rightarrow> Deal) \<Rightarrow> (Block list \<Rightarrow> cid list) \<Rightarrow> cid \<Rightarrow> cid \<Rightarrow> StorageProposal
     \<Rightarrow> Blockchain \<Rightarrow> (cid \<times> Blockchain) option" where
  "startDeal advanceState tipsetCids proposalCid0 pieceCid0 proposal bc =
     (let deal = length (store bc);
          bc1 = bc\<lparr> store := store bc @ [newDeal proposalCid0 pieceCid0 proposal bc] \<rparr>;
          bc2 = bc1\<lparr> dealsByCid := (dealsByCid bc1)(proposalCid0 \<mapsto> deal) \<rparr>;
          bc3 = bc2\<lparr> deals := deals bc2 @ [deal] \<rparr>;
          bc4 = bc3\<lparr> inProcessDeals := inProcessDeals bc3 @ [deal] \<rparr>
      in if automining bc4
         then (case mineUntilActive advanceState tipsetCids deal bc4 of
                 None \<Rightarrow> None
               | Some bc5 \<Rightarrow> Some (proposalCid (store bc5 ! deal), bc5))
         else Some (proposalCid (store bc4 ! deal), bc4))"

subsection \<open>Start-up, readiness and shutdown\<close>

text \<open>
  The first part of the start-up callback: the server object is created and its
  \<^verbatim>\<open>start()\<close> is called. The callback runs only when the timer that holds it fires.
\<close>

definition startupBegin :: "Blockchain \<Rightarrow> Blockchain option" where
  "startupBegin bc =
     (if startup bc = Scheduled
      then Some (bc\<lparr> ipfsServer := Some \<lparr> port = ipfsPort bc, started = False, stopped = False \<rparr>,
                     startup := AwaitingStart \<rparr>)
      else None)"

text \<open>
  \<^verbatim>\<open>this.emit("ready")\<close>: the event is recorded and every listener registered with
  \<^verbatim>\<open>on("ready", resolve)\<close> is called, which resolves its promise.
\<close>

definition emitReady :: "Blockchain \<Rightarrow> Blockchain" where
  "emitReady bc = bc\<lparr> emitted := emitted bc @ [Ready],
                      resolved := resolved bc @ readyListeners bc \<rparr>"

text \<open>
  The second part, run when the promise of \<^verbatim>\<open>start()\<close> resolves: the interval timer
  is armed under its guard, the flag is set and the event emitted. When \<^verbatim>\<open>start()\<close>
  rejects or never settles, this part never runs.
\<close>

definition startupFinish :: "Blockchain \<Rightarrow> Blockchain option" where
  "startupFinish bc =
     (if startup bc = AwaitingStart then
        (let bc1 = bc\<lparr> ipfsServer := map_option (\<lambda>s. s\<lparr> started := True \<rparr>) (ipfsServer bc) \<rparr>;
             bc2 = (if \<not> automining bc1 \<and> blockTime bc1 \<noteq> 0
                    then bc1\<lparr> miningTimeout := Some (blockTime bc1) \<rparr>
                    else bc1);
             bc3 = bc2\<lparr> ready := True \<rparr>
         in Some ((emitReady bc3)\<lparr> startup := Completed \<rparr>))
      else None)"

text \<open>
  \<^verbatim>\<open>waitForReady()\<close>; \<open>w\<close> names the promise the call returns. The result tells
  whether the promise is resolved inside the call.
\<close>

definition waitForReady :: "nat \<Rightarrow> Blockchain \<Rightarrow> bool \<times> Blockchain" where
  "waitForReady w bc =
     (if ready bc
      then (True, bc\<lparr> resolved := resolved bc @ [w] \<rparr>)
      else (False, bc\<lparr> readyListeners := readyListeners bc @ [w] \<rparr>))"

text \<open>
  \<^verbatim>\<open>stop()\<close>: \<^verbatim>\<open>clearInterval\<close> accepts an undefined handle; calling \<^verbatim>\<open>stop\<close> on an
  undefined \<^verbatim>\<open>ipfsServer\<close> throws, after the timer has been cleared.
\<close>

definition stop :: "Blockchain \<Rightarrow> (error + unit) \<times> Blockchain" where
  "stop bc =
     (let bc1 = bc\<lparr> miningTimeout := None \<rparr>
      in case ipfsServer bc1 of
           None \<Rightarrow> (Inl TypeError, bc1)
         | Some srv \<Rightarrow> (Inr (), bc1\<lparr> ipfsServer := Some (srv\<lparr> stopped := True \<rparr>) \<rparr>))"

subsection \<open>Reachable states\<close>

text \<open>
  One step of a \<^verbatim>\<open>Blockchain\<close>: a call of one of its methods (the interval timer calls
  \<^verbatim>\<open>mineTipset()\<close> too) or one of the two parts of the start-up callback. A state is
  reachable when the constructor built it or a step leads to it from a reachable one.
\<close>

inductive step ::
  "(bool \<Rightarrow> Deal \<Rightarrow> Deal) \<Rightarrow> (Block list \<Rightarrow> cid list) \<Rightarrow> Blockchain \<Rightarrow> Blockchain \<Rightarrow> bool"
  for advanceState :: "bool \<Rightarrow> Deal \<Rightarrow> Deal" and tipsetCids :: "Block list \<Rightarrow> cid list" where
  s_mineTipset: "mineTipset advanceState tipsetCids n bc = Inr bc' \<Longrightarrow>
     step advanceState tipsetCids bc bc'"
| s_startDeal: "startDeal advanceState tipsetCids proposalCid0 pieceCid0 proposal bc = Some (c, bc') \<Longrightarrow>
     step advanceState tipsetCids bc bc'"
| s_startupBegin: "startupBegin bc = Some bc' \<Longrightarrow> step advanceState tipsetCids bc bc'"
| s_startupFinish: "startupFinish bc = Some bc' \<Longrightarrow> step advanceState tipsetCids bc bc'"
| s_waitForReady: "step advanceState tipsetCids bc (snd (waitForReady w bc))"
| s_stop: "step advanceState tipsetCids bc (snd (stop bc))"

inductive reachable ::
  "(bool \<Rightarrow> Deal \<Rightarrow> Deal) \<Rightarrow> (Block list \<Rightarrow> cid list) \<Rightarrow> Blockchain \<Rightarrow> bool"
  for advanceState :: "bool \<Rightarrow> Deal \<Rightarrow> Deal" and tipsetCids :: "Block list \<Rightarrow> cid list" where
  r_constructor: "reachable advanceState tipsetCids (constructor genesisCid options)"
| r_step: "reachable advanceState tipsetCids bc \<Longrightarrow> step advanceState tipsetCids bc bc' \<Longrightarrow>
     reachable advanceState tipsetCids bc'"

section \<open>The checkpoint system of the ledger\<close>

text \<open>
  The snapshot and revert code of the repository is not among the sources; only its test
  suite is (\<^verbatim>\<open>snapshot / revert\<close>, against \<^verbatim>\<open>evm_snapshot\<close> and \<^verbatim>\<open>evm_revert\<close>). This
  section models the components the spec describes for it: StorageCache, ChainState,
  SnapshotManager, and the ledger operations of the external interface, in automine mode
  (every accepted operation is mined at once into a block of its own, as in the tests).
\<close>

subsection \<open>StorageCache\<close>

type_synonym key = nat
type_synonym val = int

text \<open>
  Modelled from the spec: the StorageCache, which is not among the sources: a cache tier
  in memory in front of a durable backing store. A write goes to the memory tier; a
  commit writes the tier back; a read that misses the tier fetches from the backing
  store and populates the tier; an eviction writes the entry back and drops it.
\<close>

record StorageCache =
  backing :: "key \<rightharpoonup> val"
  memory :: "key \<rightharpoonup> val"

text \<open>
  Modelled from the spec: the operations of the StorageCache (\<^verbatim>\<open>read\<close>, \<^verbatim>\<open>write\<close>, \<^verbatim>\<open>commit\<close>,
  \<^verbatim>\<open>snapshotHandle\<close>, \<^verbatim>\<open>restore\<close>, and eviction), which are not among the sources.
  \<open>cview\<close> is what a read sees: the memory tier in front of the backing store.
\<close>

definition cview :: "StorageCache \<Rightarrow> key \<rightharpoonup> val" where
  "cview c = backing c ++ memory c"

definition read :: "key \<Rightarrow> StorageCache \<Rightarrow> val option \<times> StorageCache" where
  "read k c =
     (case memory c k of
        Some v \<Rightarrow> (Some v, c)
      | None \<Rightarrow>
          (case backing c k of
             None \<Rightarrow> (None, c)
           | Some v \<Rightarrow> (Some v, c\<lparr> memory := (memory c)(k \<mapsto> v) \<rparr>)))"

definition write_c :: "key \<Rightarrow> val \<Rightarrow> StorageCache \<Rightarrow> StorageCache" where
  "write_c k v c = c\<lparr> memory := (memory c)(k \<mapsto> v) \<rparr>"

definition evict :: "key \<Rightarrow> StorageCache \<Rightarrow> StorageCache" where
  "evict k c =
     (case memory c k of
        None \<Rightarrow> c
      | Some v \<Rightarrow> c\<lparr> backing := (backing c)(k \<mapsto> v), memory := (memory c)(k := None) \<rparr>)"

text \<open>Modelled from the spec: \<^verbatim>\<open>commit() -> stateRootHandle\<close>; the handle is the committed contents.\<close>

definition commit :: "StorageCache \<Rightarrow> (key \<rightharpoonup> val) \<times> StorageCache" where
  "commit c = (backing c ++ memory c, c\<lparr> backing := backing c ++ memory c \<rparr>)"

text \<open>
  Modelled from the spec: \<^verbatim>\<open>snapshotHandle()\<close> captures the contents; \<^verbatim>\<open>restore\<close> puts them back and invalidates
  the whole memory tier (it does not merely roll the tier back).
\<close>

definition snapshotHandle :: "StorageCache \<Rightarrow> key \<rightharpoonup> val" where
  "snapshotHandle c = cview c"

definition restore :: "(key \<rightharpoonup> val) \<Rightarrow> StorageCache \<Rightarrow> StorageCache" where
  "restore h c = c\<lparr> backing := h, memory := Map.empty \<rparr>"

subsection \<open>ChainState\<close>

datatype ledger_error = SequenceError | RangeError

record Receipt =
  r_block :: cid
  r_success :: bool
  r_return :: val
  r_writes :: "(key \<times> val) list"

text \<open>
  Modelled from the spec: the blocks of ChainState, which is not among the sources:
  height, parent references, own reference, the state root committed to, and the
  accepted operations with their receipts.
\<close>

record LBlock =
  l_height :: nat
  l_parents :: "cid list"
  l_self :: cid
  l_stateRoot :: "key \<rightharpoonup> val"
  l_ops :: "(nat \<times> Receipt) list"

definition latest :: "LBlock list \<Rightarrow> LBlock option" where
  "latest ch = (if ch = [] then None else Some (last ch))"

definition genesis :: "LBlock list \<Rightarrow> LBlock option" where
  "genesis ch = (case ch of [] \<Rightarrow> None | b # _ \<Rightarrow> Some b)"

text \<open>Modelled from the spec: \<^verbatim>\<open>append(newBlock)\<close> requires the next height and the latest
  block as only parent.\<close>

definition append_block :: "LBlock \<Rightarrow> LBlock list \<Rightarrow> ledger_error + LBlock list" where
  "append_block b ch =
     (case latest ch of
        None \<Rightarrow> Inl SequenceError
      | Some l \<Rightarrow>
          if l_height b = l_height l + 1 \<and> l_parents b = [l_self l]
          then Inr (ch @ [b]) else Inl SequenceError)"

text \<open>Modelled from the spec: \<^verbatim>\<open>truncateTo(index)\<close> discards all blocks after position \<open>index\<close>;
  \<^verbatim>\<open>receiptFor\<close> looks an operation up in the blocks that are left.\<close>

definition truncateTo :: "nat \<Rightarrow> LBlock list \<Rightarrow> ledger_error + LBlock list" where
  "truncateTo index ch = (if index < length ch then Inr (take (index + 1) ch) else Inl RangeError)"

definition receiptFor :: "nat \<Rightarrow> LBlock list \<Rightarrow> Receipt option" where
  "receiptFor operationRef ch = map_of (concat (map l_ops ch)) operationRef"

subsection \<open>SnapshotManager and the ledger\<close>

datatype CheckpointStatus = CpActive | CpReverted

text \<open>
  Modelled from the spec: a checkpoint of the SnapshotManager, which is not among the
  sources. Checkpoints are kept in the order of their creation and never removed, and
  ids are issued from 1 in steps of 1: the checkpoint with id \<open>i\<close> is the one at position
  \<open>i - 1\<close>, and those created after it are the ones behind it. A revert rolls the
  ledger back together with its dependent entities (the spec's purpose, and its
  round-trip property), so a checkpoint captures the chain length, the cache contents
  and the entities: their states and the pending set.
\<close>

record Checkpoint =
  chainLength :: nat
  cacheHandle :: "key \<rightharpoonup> val"
  entityStates :: "DealState list"
  entityPending :: "nat list"
  status :: CheckpointStatus

text \<open>
  Modelled from the spec: the ledger, which is not among the sources: chain, cache,
  checkpoints, the counter that names operations, and the dependent entities: their
  states, by entity id, and the ids of those still pending.
\<close>

record Ledger =
  chain :: "LBlock list"
  cache :: StorageCache
  checkpoints :: "Checkpoint list"
  nextOperation :: nat
  entities :: "DealState list"
  pendingEntities :: "nat list"

definition genesisLedger :: "cid \<Rightarrow> (key \<rightharpoonup> val) \<Rightarrow> Ledger" where
  "genesisLedger g initial =
     \<lparr> chain = [\<lparr> l_height = 0, l_parents = [], l_self = g, l_stateRoot = initial, l_ops = [] \<rparr>],
       cache = \<lparr> backing = initial, memory = Map.empty \<rparr>,
       checkpoints = [],
       nextOperation = 0,
       entities = [],
       pendingEntities = [] \<rparr>"

text \<open>Modelled from the spec: \<^verbatim>\<open>snapshot() -> id\<close>; the chain length recorded is the index of
  the last block, and the entities are captured as they are.\<close>

definition snapshot :: "Ledger \<Rightarrow> int \<times> Ledger" where
  "snapshot L =
     (int (length (checkpoints L)) + 1,
      L\<lparr> checkpoints := checkpoints L @
            [\<lparr> chainLength = length (chain L) - 1,
               cacheHandle = snapshotHandle (cache L),
               entityStates = entities L,
               entityPending = pendingEntities L,
               status = CpActive \<rparr>] \<rparr>)"

definition findCheckpoint :: "int \<Rightarrow> Checkpoint list \<Rightarrow> Checkpoint option" where
  "findCheckpoint i cps =
     (if 1 \<le> i \<and> i \<le> int (length cps) then Some (cps ! nat (i - 1)) else None)"

text \<open>Modelled from the spec: the cascade; the target and every checkpoint created after it
  become Reverted.\<close>

definition cascade :: "int \<Rightarrow> Checkpoint list \<Rightarrow> Checkpoint list" where
  "cascade i cps =
     take (nat (i - 1)) cps @ map (\<lambda>cp. cp\<lparr> status := CpReverted \<rparr>) (drop (nat (i - 1)) cps)"

text \<open>
  Modelled from the spec: \<^verbatim>\<open>revert(id) -> bool\<close>; false for an id no checkpoint has and for a checkpoint that
  is Reverted. (The spec's third case, a checkpoint with a smaller id created later,
  cannot arise with ids issued in increasing order.) On success the chain is truncated,
  the cache restored and the entities put back as the checkpoint captured them. An error
  of \<^verbatim>\<open>truncateTo\<close> is passed on.
\<close>

definition revert :: "int \<Rightarrow> Ledger \<Rightarrow> ledger_error + (bool \<times> Ledger)" where
  "revert i L =
     (case findCheckpoint i (checkpoints L) of
        None \<Rightarrow> Inr (False, L)
      | Some cp \<Rightarrow>
          if status cp = CpReverted then Inr (False, L)
          else (case truncateTo (chainLength cp) (chain L) of
                  Inl e \<Rightarrow> Inl e
                | Inr ch \<Rightarrow>
                    Inr (True, L\<lparr> checkpoints := cascade i (checkpoints L),
                                  chain := ch,
                                  cache := restore (cacheHandle cp) (cache L),
                                  entities := entityStates cp,
                                  pendingEntities := entityPending cp \<rparr>)))"

text \<open>
  The per-block advancement of the dependent entities, as the loop at the end of
  \<^verbatim>\<open>mineTipset\<close> does it (\<^verbatim>\<open>blockchain.ts\<close>, the loop \<open>advanceDeals\<close> embeds): an array
  iterator over the pending set; the entity it meets moves one step (\<open>nextState\<close>) and,
  once \<^verbatim>\<open>Active\<close>, is spliced out of the pending set under the iterator. The ledger
  keeps no log of events.
\<close>

function advancePending :: "nat \<Rightarrow> DealState list \<Rightarrow> nat list \<Rightarrow> DealState list \<times> nat list" where
  "advancePending i es pending =
     (if i < length pending then
        (let e = pending ! i;
             es1 = es[e := nextState (es ! e)];
             pending1 = (if es1 ! e = Active
                         then splice1 (indexOf pending e) pending
                         else pending)
         in advancePending (i + 1) es1 pending1)
      else (es, pending))"
  by pat_completeness auto
termination
  apply (relation "measure (\<lambda>(i, es, pending). length pending - i)")
   apply simp
  subgoal for i es pending e es1 pending1
    using length_splice1 [of "indexOf pending e" pending]
    by (auto split: if_splits)
  done

declare advancePending.simps [simp del]

definition advanceAll :: "DealState list \<Rightarrow> nat list \<Rightarrow> DealState list \<times> nat list" where
  "advanceAll es pending = advancePending 0 es pending"

text \<open>
  Modelled from the spec: \<^verbatim>\<open>registerDependentEntity\<close>; the new entity starts in
  \<^verbatim>\<open>Validating\<close> and joins the pending set, as \<^verbatim>\<open>startDeal\<close> registers a deal.
\<close>

definition registerDependentEntity :: "Ledger \<Rightarrow> nat \<times> Ledger" where
  "registerDependentEntity L =
     (length (entities L),
      L\<lparr> entities := entities L @ [Validating],
         pendingEntities := pendingEntities L @ [length (entities L)] \<rparr>)"

text \<open>
  Modelled from the spec: block production; the cache is committed, a block on top of the latest one is appended
  with the given operations, and the entities advance. \<open>self\<close> is the content identifier
  of the new block.
\<close>

definition produce :: "cid \<Rightarrow> (nat \<times> Receipt) list \<Rightarrow> Ledger \<Rightarrow> ledger_error + Ledger" where
  "produce self ops L =
     (case latest (chain L) of
        None \<Rightarrow> Inl SequenceError
      | Some l \<Rightarrow>
          (let (root, c) = commit (cache L);
               b = \<lparr> l_height = l_height l + 1, l_parents = [l_self l], l_self = self,
                     l_stateRoot = root, l_ops = ops \<rparr>
           in case append_block b (chain L) of
                Inl e \<Rightarrow> Inl e
              | Inr ch \<Rightarrow>
                  Inr (L\<lparr> chain := ch, cache := c,
                         entities := fst (advanceAll (entities L) (pendingEntities L)),
                         pendingEntities := snd (advanceAll (entities L) (pendingEntities L)) \<rparr>)))"

definition produceBlock :: "cid \<Rightarrow> Ledger \<Rightarrow> ledger_error + Ledger" where
  "produceBlock self L = produce self [] L"

text \<open>
  Modelled from the spec: \<^verbatim>\<open>submitOperation(payload) -> operationRef\<close> in automine mode. \<open>execute\<close> is the
  excluded execution engine: from the operation and the current state it gives success,
  return data and storage writes.
\<close>

definition submitOperation ::
  "('p \<Rightarrow> (key \<rightharpoonup> val) \<Rightarrow> bool \<times> val \<times> (key \<times> val) list) \<Rightarrow> 'p \<Rightarrow> cid \<Rightarrow> Ledger
     \<Rightarrow> ledger_error + (nat \<times> Ledger)" where
  "submitOperation execute payload self L =
     (let (ok, ret, writes) = execute payload (cview (cache L));
          c = fold (\<lambda>(k, v). write_c k v) writes (cache L);
          operationRef = nextOperation L;
          receipt = \<lparr> r_block = self, r_success = ok, r_return = ret, r_writes = writes \<rparr>
      in case produce self [(operationRef, receipt)]
                (L\<lparr> cache := c, nextOperation := operationRef + 1 \<rparr>) of
           Inl e \<Rightarrow> Inl e
         | Inr L' \<Rightarrow> Inr (operationRef, L'))"

definition getReceipt :: "nat \<Rightarrow> Ledger \<Rightarrow> Receipt option" where
  "getReceipt operationRef L = receiptFor operationRef (chain L)"

text \<open>Modelled from the spec: a storage read of the interface, which may populate the cache,
  and an eviction.\<close>

definition readStorage :: "key \<Rightarrow> Ledger \<Rightarrow> val option \<times> Ledger" where
  "readStorage k L = (fst (read k (cache L)), L\<lparr> cache := snd (read k (cache L)) \<rparr>)"

definition evictStorage :: "key \<Rightarrow> Ledger \<Rightarrow> Ledger" where
  "evictStorage k L = L\<lparr> cache := evict k (cache L) \<rparr>"

text \<open>Modelled from the spec: the calls of the external interface, and a run of them that
  stops at the first error.\<close>

datatype 'p Call =
    Submit 'p cid
  | ProduceBlock cid
  | ReadStorage key
  | EvictStorage key
  | Snapshot
  | Revert int
  | RegisterEntity

fun call ::
  "('p \<Rightarrow> (key \<rightharpoonup> val) \<Rightarrow> bool \<times> val \<times> (key \<times> val) list) \<Rightarrow> 'p Call \<Rightarrow> Ledger
     \<Rightarrow> ledger_error + Ledger" where
  "call execute (Submit payload self) L = map_sum id snd (submitOperation execute payload self L)"
| "call execute (ProduceBlock self) L = produceBlock self L"
| "call execute (ReadStorage k) L = Inr (snd (readStorage k L))"
| "call execute (EvictStorage k) L = Inr (evictStorage k L)"
| "call execute Snapshot L = Inr (snd (snapshot L))"
| "call execute (Revert i) L = map_sum id snd (revert i L)"
| "call execute RegisterEntity L = Inr (snd (registerDependentEntity L))"

fun calls ::
  "('p \<Rightarrow> (key \<rightharpoonup> val) \<Rightarrow> bool \<times> val \<times> (key \<times> val) list) \<Rightarrow> 'p Call list \<Rightarrow> Ledger
     \<Rightarrow> ledger_error + Ledger" where
  "calls execute [] L = Inr L"
| "calls execute (c # cs) L =
     (case call execute c L of Inl e \<Rightarrow> Inl e | Inr L' \<Rightarrow> calls execute cs L')"

inductive ledgerReachable ::
  "('p \<Rightarrow> (key \<rightharpoonup> val) \<Rightarrow> bool \<times> val \<times> (key \<times> val) list) \<Rightarrow> Ledger \<Rightarrow> bool"
  for execute :: "'p \<Rightarrow> (key \<rightharpoonup> val) \<Rightarrow> bool \<times> val \<times> (key \<times> val) list" where
  l_genesis: "ledgerReachable execute (genesisLedger g initial)"
| l_call: "ledgerReachable execute L \<Longrightarrow> call execute c L = Inr L' \<Longrightarrow> ledgerReachable execute L'"

subsection \<open>The protocol boundary of \<^verbatim>\<open>evm_revert\<close>\<close>

text \<open>
  Modelled from the spec: the values a client can send as checkpoint identifier, and
  the classification of them at the boundary, which is not among the sources. A buffer
  is read as the number its bytes spell, most significant byte first.
\<close>

datatype Identifier =
    IdObject
  | IdBoolean bool
  | IdNonFinite
  | IdFraction
  | IdNull
  | IdUndefined
  | IdInteger int
  | IdBuffer "nat list"

datatype Rejection = EncodingError | UsageError

definition bufferValue :: "nat list \<Rightarrow> int" where
  "bufferValue bytes = int (foldl (\<lambda>acc b. acc * 256 + b) 0 bytes)"

fun classify :: "Identifier \<Rightarrow> Rejection + int" where
  "classify IdObject = Inl EncodingError"
| "classify (IdBoolean b) = Inl EncodingError"
| "classify IdNonFinite = Inl EncodingError"
| "classify IdFraction = Inl EncodingError"
| "classify IdNull = Inl UsageError"
| "classify IdUndefined = Inl UsageError"
| "classify (IdInteger i) = Inr i"
| "classify (IdBuffer bytes) = Inr (bufferValue bytes)"

datatype Response = Rejected Rejection | Faulted ledger_error | Returned bool

definition evm_revert :: "Identifier \<Rightarrow> Ledger \<Rightarrow> Response \<times> Ledger" where
  "evm_revert ident L =
     (case classify ident of
        Inl r \<Rightarrow> (Rejected r, L)
      | Inr i \<Rightarrow>
          (case revert i L of
             Inl e \<Rightarrow> (Faulted e, L)
           | Inr (b, L') \<Rightarrow> (Returned b, L')))"

text \<open>\<open>n\<close> calls of \<^verbatim>\<open>evm_revert\<close> in a row with the same identifier, and their responses.\<close>

fun evm_revert_times :: "nat \<Rightarrow> Identifier \<Rightarrow> Ledger \<Rightarrow> Response list \<times> Ledger" where
  "evm_revert_times 0 ident L = ([], L)"
| "evm_revert_times (Suc n) ident L =
     (let (r, L1) = evm_revert ident L; (rs, L2) = evm_revert_times n ident L1 in (r # rs, L2))"

section \<open>Properties of the chain simulator\<close>

subsection \<open>The loops in closed form\<close>

declare newBlocksLoop.simps [simp del]
declare advanceDeals.simps [simp del]

lemma newBlocksLoop_eq:
  "newBlocksLoop m p n i acc = acc @ replicate (nat (n - i)) \<lparr> b_miner = Some m, parents = [p] \<rparr>"
proof (induction m p n i acc rule: newBlocksLoop.induct)
  case (1 m p n i acc)
  show ?case
  proof (cases "i < n")
    case True
    then have "nat (n - i) = Suc (nat (n - (i + 1)))" by simp
    with True 1 show ?thesis
      by (subst newBlocksLoop.simps) (simp add: replicate_append_same)
  next
    case False
    then show ?thesis by (subst newBlocksLoop.simps) simp
  qed
qed

lemma advanceDeals_frame [simp]:
  "tipsets (advanceDeals a i bc) = tipsets bc \<and>
   automining (advanceDeals a i bc) = automining bc \<and>
   blockTime (advanceDeals a i bc) = blockTime bc \<and>
   miner (advanceDeals a i bc) = miner bc \<and>
   deals (advanceDeals a i bc) = deals bc \<and>
   dealsByCid (advanceDeals a i bc) = dealsByCid bc \<and>
   ipfsServer (advanceDeals a i bc) = ipfsServer bc \<and>
   miningTimeout (advanceDeals a i bc) = miningTimeout bc \<and>
   ready (advanceDeals a i bc) = ready bc \<and>
   readyListeners (advanceDeals a i bc) = readyListeners bc \<and>
   resolved (advanceDeals a i bc) = resolved bc \<and>
   startup (advanceDeals a i bc) = startup bc \<and>
   length (store (advanceDeals a i bc)) = length (store bc)"
proof (induction a i bc rule: advanceDeals.induct)
  case (1 a i bc)
  show ?case
  proof (cases "i < length (inProcessDeals bc)")
    case True
    show ?thesis
      using 1 [OF True refl refl refl refl]
      by (subst (1 2 3 4 5 6 7 8 9 10 11 12 13) advanceDeals.simps) (simp add: True Let_def)
  next
    case False
    then show ?thesis by (subst (1 2 3 4 5 6 7 8 9 10 11 12 13) advanceDeals.simps) simp
  qed
qed

lemma advanceDeals_done: "length (inProcessDeals bc) \<le> i \<Longrightarrow> advanceDeals a i bc = bc"
  by (subst advanceDeals.simps) simp

lemma advanceDeals_single:
  assumes "inProcessDeals bc = [d]" and "d < length (store bc)"
  shows "advanceDeals a 0 bc =
         bc\<lparr> store := (store bc)[d := a (automining bc) (store bc ! d)],
             emitted := emitted bc @ [DealStateChanged d],
             inProcessDeals := (if state (a (automining bc) (store bc ! d)) = Active then [] else [d]) \<rparr>"
  using assms
  by (subst advanceDeals.simps) (simp add: Let_def splice1_def advanceDeals_done)

text \<open>The tipset a call of \<^verbatim>\<open>mineTipset\<close> appends, with the loop of blocks in closed form.\<close>

definition minedTipset :: "(Block list \<Rightarrow> cid list) \<Rightarrow> int \<Rightarrow> Blockchain \<Rightarrow> Tipset" where
  "minedTipset tc n bc =
     (let bs = replicate (nat n) \<lparr> b_miner = Some (miner bc), parents = [firstCid (last (tipsets bc))] \<rparr>
      in \<lparr> cids = tc bs, blocks = bs, height = height (last (tipsets bc)) + 1 \<rparr>)"

lemma mineTipset_eq:
  "mineTipset a tc n bc =
     (if tipsets bc = [] then Inl TypeError
      else Inr (advanceDeals a 0 (bc\<lparr> tipsets := tipsets bc @ [minedTipset tc n bc] \<rparr>)))"
  by (simp add: mineTipset_def latestTipset_def Let_def newBlocksLoop_eq minedTipset_def)

lemma mineOnce_eq:
  "mineOnce a tc bc =
     (if tipsets bc = [] then bc
      else advanceDeals a 0 (bc\<lparr> tipsets := tipsets bc @ [minedTipset tc 1 bc] \<rparr>))"
  by (simp add: mineOnce_def mineTipset_eq)

lemma mineUntilActive_rule:
  assumes run: "mineUntilActive a tc d bc = Some bc'"
    and init: "I bc"
    and step: "\<And>b. I b \<Longrightarrow> state (store b ! d) \<noteq> Active \<Longrightarrow> I (mineOnce a tc b)"
  shows "I bc' \<and> state (store bc' ! d) = Active"
proof -
  let ?P = "\<lambda>a' tc' d' b y. a' = a \<longrightarrow> tc' = tc \<longrightarrow> d' = d \<longrightarrow> I b \<longrightarrow>
              I y \<and> state (store y ! d) = Active"
  have "?P a tc d bc bc'"
  proof (rule mineUntilActive.raw_induct [where P = ?P, OF _ run], goal_cases)
    case (1 f a' tc' d' b y)
    show ?case
    proof (intro impI)
      assume eq: "a' = a" "tc' = tc" "d' = d" and Ib: "I b"
      show "I y \<and> state (store y ! d) = Active"
      proof (cases "state (store b ! d) = Active")
        case True
        with 1(2) eq Ib show ?thesis by simp
      next
        case False
        with 1(2) eq have "f a tc d (mineOnce a tc b) = Some y" by simp
        from 1(1) [OF this] step [OF Ib False] show ?thesis by simp
      qed
    qed
  qed
  with init show ?thesis by simp
qed

subsection \<open>Invariants of the reachable states\<close>

text \<open>The heights of the tipsets count up from the genesis tipset at 0.\<close>

definition chainOk :: "Blockchain \<Rightarrow> bool" where
  "chainOk bc = (tipsets bc \<noteq> [] \<and> map height (tipsets bc) = map int [0..<length (tipsets bc)])"

text \<open>With \<^verbatim>\<open>automining\<close> set, no deal is pending between two calls.\<close>

definition idleWhenAutomining :: "Blockchain \<Rightarrow> bool" where
  "idleWhenAutomining bc = (automining bc \<longrightarrow> inProcessDeals bc = [])"

lemma chainOk_last: "chainOk bc \<Longrightarrow> height (last (tipsets bc)) = int (length (tipsets bc)) - 1"
proof -
  assume ok: "chainOk bc"
  then have ne: "tipsets bc \<noteq> []" by (simp add: chainOk_def)
  have "height (last (tipsets bc)) = last (map height (tipsets bc))"
    using ne by (simp add: last_map)
  also have "\<dots> = last (map int [0..<length (tipsets bc)])"
    using ok by (simp add: chainOk_def)
  also have "\<dots> = int (length (tipsets bc) - 1)"
    using ne by (simp add: last_map)
  finally show ?thesis using ne by (simp add: of_nat_diff Suc_leI)
qed

lemma chainOk_nth: "chainOk bc \<Longrightarrow> i < length (tipsets bc) \<Longrightarrow> height (tipsets bc ! i) = int i"
proof -
  assume ok: "chainOk bc" and i: "i < length (tipsets bc)"
  have "height (tipsets bc ! i) = map height (tipsets bc) ! i" using i by simp
  also have "\<dots> = map int [0..<length (tipsets bc)] ! i" using ok by (simp add: chainOk_def)
  also have "\<dots> = int i" using i by simp
  finally show ?thesis .
qed

lemma chainOk_append:
  assumes "chainOk bc" and "tipsets bc' = tipsets bc @ [t]"
    and "height t = height (last (tipsets bc)) + 1"
  shows "chainOk bc'"
  using assms chainOk_last [OF assms(1)] by (simp add: chainOk_def)

lemma chainOk_same: "tipsets bc' = tipsets bc \<Longrightarrow> chainOk bc' = chainOk bc"
  by (simp add: chainOk_def)

lemma chainOk_constructor: "chainOk (constructor g options)"
  by (simp add: chainOk_def constructor_def Let_def)

lemma height_minedTipset: "height (minedTipset tc n bc) = height (last (tipsets bc)) + 1"
  by (simp add: minedTipset_def Let_def)

lemma chainOk_mineTipset:
  assumes "chainOk bc" and "mineTipset a tc n bc = Inr bc'"
  shows "chainOk bc'"
proof -
  from assms(2) have "tipsets bc' = tipsets bc @ [minedTipset tc n bc]"
    by (simp add: mineTipset_eq split: if_splits) (use advanceDeals_frame in force)
  then show ?thesis
    by (rule chainOk_append [OF assms(1) _ height_minedTipset])
qed

lemma chainOk_mineOnce:
  assumes "chainOk bc"
  shows "chainOk (mineOnce a tc bc)"
proof -
  from assms have "tipsets bc \<noteq> []" by (simp add: chainOk_def)
  then have "tipsets (mineOnce a tc bc) = tipsets bc @ [minedTipset tc 1 bc]"
    by (simp add: mineOnce_eq)
  then show ?thesis
    by (rule chainOk_append [OF assms _ height_minedTipset])
qed

lemma idle_mineOnce_nil: "inProcessDeals bc = [] \<Longrightarrow> inProcessDeals (mineOnce a tc bc) = []"
  by (simp add: mineOnce_eq advanceDeals_done)


text \<open>The state of \<^verbatim>\<open>startDeal\<close> when it reaches its loop: the new deal is registered.\<close>

definition registered :: "cid \<Rightarrow> cid \<Rightarrow> StorageProposal \<Rightarrow> Blockchain \<Rightarrow> Blockchain" where
  "registered proposalCid0 pieceCid0 proposal bc =
     bc\<lparr> store := store bc @ [newDeal proposalCid0 pieceCid0 proposal bc],
         dealsByCid := (dealsByCid bc)(proposalCid0 \<mapsto> length (store bc)),
         deals := deals bc @ [length (store bc)],
         inProcessDeals := inProcessDeals bc @ [length (store bc)] \<rparr>"

lemma startDeal_eq:
  "startDeal a tc pc pcid sp bc =
     (if automining bc
      then (case mineUntilActive a tc (length (store bc)) (registered pc pcid sp bc) of
              None \<Rightarrow> None
            | Some bc5 \<Rightarrow> Some (proposalCid (store bc5 ! length (store bc)), bc5))
      else Some (pc, registered pc pcid sp bc))"
  by (simp add: startDeal_def registered_def Let_def newDeal_def)

lemma registered_fields [simp]:
  "tipsets (registered pc pcid sp bc) = tipsets bc"
  "automining (registered pc pcid sp bc) = automining bc"
  "inProcessDeals (registered pc pcid sp bc) = inProcessDeals bc @ [length (store bc)]"
  "store (registered pc pcid sp bc) = store bc @ [newDeal pc pcid sp bc]"
  "ready (registered pc pcid sp bc) = ready bc"
  "startup (registered pc pcid sp bc) = startup bc"
  "ipfsServer (registered pc pcid sp bc) = ipfsServer bc"
  "miningTimeout (registered pc pcid sp bc) = miningTimeout bc"
  "emitted (registered pc pcid sp bc) = emitted bc"
  "readyListeners (registered pc pcid sp bc) = readyListeners bc"
  "resolved (registered pc pcid sp bc) = resolved bc"
  "blockTime (registered pc pcid sp bc) = blockTime bc"
  by (simp_all add: registered_def)

lemma chainOk_startDeal:
  assumes "chainOk bc" and "startDeal a tc pc pcid sp bc = Some (c, bc')"
  shows "chainOk bc'"
proof (cases "automining bc")
  case True
  with assms(2) have run: "mineUntilActive a tc (length (store bc)) (registered pc pcid sp bc) = Some bc'"
    by (auto simp: startDeal_eq split: option.splits)
  have "chainOk (registered pc pcid sp bc)"
    using assms(1) by (simp add: chainOk_def)
  from mineUntilActive_rule [where I = chainOk, OF run this] chainOk_mineOnce
  show ?thesis by blast
next
  case False
  with assms show ?thesis by (auto simp: startDeal_eq chainOk_def)
qed

text \<open>The invariant of the loop of \<^verbatim>\<open>startDeal\<close> when no other deal is pending.\<close>

definition soleDeal :: "ref \<Rightarrow> Blockchain \<Rightarrow> bool" where
  "soleDeal d b = (d < length (store b) \<and>
     inProcessDeals b = (if state (store b ! d) = Active then [] else [d]))"

lemma soleDeal_mineOnce:
  assumes "soleDeal d b" and "state (store b ! d) \<noteq> Active"
  shows "soleDeal d (mineOnce a tc b)"
proof (cases "tipsets b = []")
  case True
  with assms show ?thesis by (simp add: mineOnce_eq)
next
  case False
  let ?b1 = "b\<lparr> tipsets := tipsets b @ [minedTipset tc 1 b] \<rparr>"
  have "inProcessDeals ?b1 = [d]" "d < length (store ?b1)"
    using assms by (simp_all add: soleDeal_def)
  from advanceDeals_single [OF this, of a] False assms show ?thesis
    by (simp add: mineOnce_eq soleDeal_def)
qed

lemma idle_startDeal:
  assumes "idleWhenAutomining bc" and "startDeal a tc pc pcid sp bc = Some (c, bc')"
  shows "idleWhenAutomining bc'"
proof (cases "automining bc")
  case True
  let ?d = "length (store bc)"
  from True assms(2) have run: "mineUntilActive a tc ?d (registered pc pcid sp bc) = Some bc'"
    by (auto simp: startDeal_eq split: option.splits)
  have init: "soleDeal ?d (registered pc pcid sp bc)"
    using True assms(1) by (simp add: soleDeal_def idleWhenAutomining_def newDeal_def)
  from mineUntilActive_rule [where I = "soleDeal ?d", OF run init] soleDeal_mineOnce
  have "soleDeal ?d bc' \<and> state (store bc' ! ?d) = Active" by blast
  then show ?thesis by (simp add: soleDeal_def idleWhenAutomining_def)
next
  case False
  with assms(2) show ?thesis by (auto simp: startDeal_eq idleWhenAutomining_def)
qed

lemma idle_mineTipset:
  assumes "idleWhenAutomining bc" and "mineTipset a tc n bc = Inr bc'"
  shows "idleWhenAutomining bc'"
  using assms
  by (auto simp: mineTipset_eq idleWhenAutomining_def advanceDeals_done split: if_splits)

lemma startupBegin_fields:
  "startupBegin bc = Some bc' \<Longrightarrow>
     tipsets bc' = tipsets bc \<and> automining bc' = automining bc \<and> inProcessDeals bc' = inProcessDeals bc"
  by (auto simp: startupBegin_def split: if_splits)

lemma startupFinish_fields:
  "startupFinish bc = Some bc' \<Longrightarrow>
     tipsets bc' = tipsets bc \<and> automining bc' = automining bc \<and> inProcessDeals bc' = inProcessDeals bc"
  by (auto simp: startupFinish_def Let_def emitReady_def split: if_splits)

lemma lifecycle_fields [simp]:
  "tipsets (snd (waitForReady w bc)) = tipsets bc"
  "automining (snd (waitForReady w bc)) = automining bc"
  "inProcessDeals (snd (waitForReady w bc)) = inProcessDeals bc"
  "tipsets (snd (stop bc)) = tipsets bc"
  "automining (snd (stop bc)) = automining bc"
  "inProcessDeals (snd (stop bc)) = inProcessDeals bc"
  by (auto simp: waitForReady_def stop_def Let_def split: option.splits)

lemma step_chainOk: "step a tc bc bc' \<Longrightarrow> chainOk bc \<Longrightarrow> chainOk bc'"
proof (induction rule: step.induct)
  case (s_mineTipset n bc bc')
  then show ?case by (blast intro: chainOk_mineTipset)
next
  case (s_startDeal pc pcid sp bc c bc')
  then show ?case by (blast intro: chainOk_startDeal)
qed (auto simp: chainOk_def dest: startupBegin_fields startupFinish_fields)

lemma step_idle: "step a tc bc bc' \<Longrightarrow> idleWhenAutomining bc \<Longrightarrow> idleWhenAutomining bc'"
proof (induction rule: step.induct)
  case (s_mineTipset n bc bc')
  then show ?case by (blast intro: idle_mineTipset)
next
  case (s_startDeal pc pcid sp bc c bc')
  then show ?case by (blast intro: idle_startDeal)
qed (auto simp: idleWhenAutomining_def dest: startupBegin_fields startupFinish_fields)

lemma reachable_chainOk: "reachable a tc bc \<Longrightarrow> chainOk bc"
  by (induction rule: reachable.induct) (auto intro: chainOk_constructor step_chainOk)

lemma reachable_idle: "reachable a tc bc \<Longrightarrow> idleWhenAutomining bc"
proof (induction rule: reachable.induct)
  case (r_constructor g options)
  show ?case by (simp add: idleWhenAutomining_def constructor_def Let_def)
next
  case (r_step bc bc')
  then show ?case by (blast intro: step_idle)
qed

subsection \<open>The loop of \<^verbatim>\<open>startDeal\<close> with a single pending deal\<close>

lemma mineOnce_sole:
  assumes "inProcessDeals b = [d]" and "d < length (store b)" and "tipsets b \<noteq> []"
  shows "mineOnce a tc b =
         b\<lparr> tipsets := tipsets b @ [minedTipset tc 1 b],
            store := (store b)[d := a (automining b) (store b ! d)],
            emitted := emitted b @ [DealStateChanged d],
            inProcessDeals := (if state (a (automining b) (store b ! d)) = Active then [] else [d]) \<rparr>"
proof -
  let ?b1 = "b\<lparr> tipsets := tipsets b @ [minedTipset tc 1 b] \<rparr>"
  have "inProcessDeals ?b1 = [d]" "d < length (store ?b1)"
    using assms by simp_all
  from advanceDeals_single [OF this, of a] assms(3) show ?thesis
    by (simp add: mineOnce_eq)
qed

lemma mineUntilActive_sole:
  assumes "d < length (store b)" and "tipsets b \<noteq> []"
    and "0 < n \<Longrightarrow> inProcessDeals b = [d]"
    and "\<forall>k<n. state ((a (automining b) ^^ k) (store b ! d)) \<noteq> Active"
    and "state ((a (automining b) ^^ n) (store b ! d)) = Active"
  shows "\<exists>b'. mineUntilActive a tc d b = Some b' \<and>
           length (tipsets b') = length (tipsets b) + n \<and>
           store b' = (store b)[d := (a (automining b) ^^ n) (store b ! d)] \<and>
           inProcessDeals b' = (if n = 0 then inProcessDeals b else [])"
  using assms
proof (induction n arbitrary: b)
  case 0
  then have "mineUntilActive a tc d b = Some b"
    by (subst mineUntilActive.simps) simp
  then show ?case by simp
next
  case (Suc n)
  let ?am = "automining b"
  let ?x = "a ?am (store b ! d)"
  let ?b1 = "mineOnce a tc b"
  from Suc.prems(4) have notyet: "state (store b ! d) \<noteq> Active"
    by (metis funpow_0 zero_less_Suc)
  from Suc.prems(3) have sole: "inProcessDeals b = [d]" by simp
  note b1 = mineOnce_sole [OF sole Suc.prems(1) Suc.prems(2), of a tc]
  have am1: "automining ?b1 = ?am" by (simp add: b1)
  have st1: "store ?b1 = (store b)[d := ?x]" by (simp add: b1)
  have x1: "store ?b1 ! d = ?x" using Suc.prems(1) by (simp add: st1)
  have len1: "d < length (store ?b1)" using Suc.prems(1) by (simp add: st1)
  have ts1: "tipsets ?b1 \<noteq> []" by (simp add: b1)
  have shift: "(a ?am ^^ k) ?x = (a ?am ^^ Suc k) (store b ! d)" for k
    by (simp add: funpow_swap1)
  have in1: "0 < n \<Longrightarrow> inProcessDeals ?b1 = [d]"
  proof -
    assume "0 < n"
    then have "state ((a ?am ^^ 1) (store b ! d)) \<noteq> Active"
      using Suc.prems(4) by (metis One_nat_def Suc_less_eq)
    then show ?thesis by (simp add: b1)
  qed
  have no1: "\<forall>k<n. state ((a (automining ?b1) ^^ k) (store ?b1 ! d)) \<noteq> Active"
    using Suc.prems(4) by (simp add: am1 x1 shift del: funpow.simps)
  have yes1: "state ((a (automining ?b1) ^^ n) (store ?b1 ! d)) = Active"
    using Suc.prems(5) by (simp add: am1 x1 shift del: funpow.simps)
  from Suc.IH [OF len1 ts1 in1 no1 yes1]
  obtain b' where run: "mineUntilActive a tc d ?b1 = Some b'"
    and len: "length (tipsets b') = length (tipsets ?b1) + n"
    and st: "store b' = (store ?b1)[d := (a (automining ?b1) ^^ n) (store ?b1 ! d)]"
    and inp: "inProcessDeals b' = (if n = 0 then inProcessDeals ?b1 else [])"
    by blast
  have "mineUntilActive a tc d b = Some b'"
    using notyet run by (subst mineUntilActive.simps) simp
  moreover have "length (tipsets b') = length (tipsets b) + Suc n"
    using len by (simp add: b1)
  moreover have "store b' = (store b)[d := (a ?am ^^ Suc n) (store b ! d)]"
    unfolding st am1 x1 shift by (simp add: st1)
  moreover have "inProcessDeals b' = []"
  proof (cases "n = 0")
    case True
    with Suc.prems(5) have "state ?x = Active" by simp
    with True inp show ?thesis by (simp add: b1)
  next
    case False
    with inp show ?thesis by simp
  qed
  ultimately show ?case by simp
qed

subsection \<open>Start-up and readiness\<close>

lemma advanceDeals_ready_count [simp]:
  "count_list (emitted (advanceDeals a i bc)) Ready = count_list (emitted bc) Ready"
proof (induction a i bc rule: advanceDeals.induct)
  case (1 a i bc)
  show ?case
  proof (cases "i < length (inProcessDeals bc)")
    case True
    show ?thesis
      using 1 [OF True refl refl refl refl]
      by (subst advanceDeals.simps) (simp add: True Let_def)
  next
    case False
    then show ?thesis by (subst advanceDeals.simps) simp
  qed
qed

text \<open>The fields the start-up, \<^verbatim>\<open>waitForReady\<close> and \<^verbatim>\<open>stop\<close> read or write, and the number
  of \<^verbatim>\<open>ready\<close> events emitted: mining and deals leave all of them as they are.\<close>

definition lifecycleView ::
  "Blockchain \<Rightarrow> bool \<times> Startup \<times> IPFSServer option \<times> int option \<times> nat list \<times> nat list \<times> bool \<times> int \<times> nat" where
  "lifecycleView bc =
     (ready bc, startup bc, ipfsServer bc, miningTimeout bc, readyListeners bc, resolved bc,
      automining bc, blockTime bc, count_list (emitted bc) Ready)"

lemma lifecycleView_mineOnce: "lifecycleView (mineOnce a tc bc) = lifecycleView bc"
  by (simp add: mineOnce_eq lifecycleView_def)

lemma lifecycleView_mineTipset:
  "mineTipset a tc n bc = Inr bc' \<Longrightarrow> lifecycleView bc' = lifecycleView bc"
  by (auto simp: mineTipset_eq lifecycleView_def split: if_splits)

lemma lifecycleView_startDeal:
  assumes "startDeal a tc pc pcid sp bc = Some (c, bc')"
  shows "lifecycleView bc' = lifecycleView bc"
proof (cases "automining bc")
  case True
  with assms have run: "mineUntilActive a tc (length (store bc)) (registered pc pcid sp bc) = Some bc'"
    by (auto simp: startDeal_eq split: option.splits)
  have "lifecycleView (registered pc pcid sp bc) = lifecycleView bc"
    by (simp add: lifecycleView_def)
  from mineUntilActive_rule [where I = "\<lambda>b. lifecycleView b = lifecycleView bc", OF run this]
  show ?thesis by (simp add: lifecycleView_mineOnce)
next
  case False
  with assms show ?thesis by (auto simp: startDeal_eq lifecycleView_def)
qed

text \<open>The invariant of the start-up: the flag, the event, the server, the promises and the timer.\<close>

definition lifeOk :: "Blockchain \<Rightarrow> bool" where
  "lifeOk bc =
     ((ready bc = (startup bc = Completed)) \<and>
      count_list (emitted bc) Ready = (if ready bc then 1 else 0) \<and>
      (ready bc \<longrightarrow> (\<exists>s. ipfsServer bc = Some s \<and> started s)) \<and>
      (startup bc = AwaitingStart \<longrightarrow> ipfsServer bc \<noteq> None) \<and>
      (\<not> ready bc \<longrightarrow> resolved bc = []) \<and>
      (ready bc \<longrightarrow> set (readyListeners bc) \<subseteq> set (resolved bc)) \<and>
      (miningTimeout bc \<noteq> None \<longrightarrow> \<not> automining bc \<and> ready bc))"

lemma lifeOk_view: "lifecycleView bc' = lifecycleView bc \<Longrightarrow> lifeOk bc' = lifeOk bc"
  by (simp add: lifecycleView_def lifeOk_def)

lemma lifeOk_constructor: "lifeOk (constructor g options)"
  by (simp add: lifeOk_def constructor_def Let_def)

lemma lifeOk_startupBegin: "lifeOk bc \<Longrightarrow> startupBegin bc = Some bc' \<Longrightarrow> lifeOk bc'"
  by (auto simp: lifeOk_def startupBegin_def split: if_splits)

lemma lifeOk_startupFinish: "lifeOk bc \<Longrightarrow> startupFinish bc = Some bc' \<Longrightarrow> lifeOk bc'"
  by (auto simp: lifeOk_def startupFinish_def emitReady_def Let_def split: if_splits)

lemma lifeOk_waitForReady: "lifeOk bc \<Longrightarrow> lifeOk (snd (waitForReady w bc))"
  by (auto simp: lifeOk_def waitForReady_def)

lemma lifeOk_stop: "lifeOk bc \<Longrightarrow> lifeOk (snd (stop bc))"
  by (auto simp: lifeOk_def stop_def Let_def split: option.splits)

lemma step_lifeOk: "step a tc bc bc' \<Longrightarrow> lifeOk bc \<Longrightarrow> lifeOk bc'"
proof (induction rule: step.induct)
  case (s_mineTipset n bc bc')
  then show ?case using lifeOk_view [OF lifecycleView_mineTipset] by blast
next
  case (s_startDeal pc pcid sp bc c bc')
  then show ?case using lifeOk_view [OF lifecycleView_startDeal] by blast
next
  case (s_startupBegin bc bc')
  then show ?case by (blast intro: lifeOk_startupBegin)
next
  case (s_startupFinish bc bc')
  then show ?case by (blast intro: lifeOk_startupFinish)
next
  case (s_waitForReady bc w)
  then show ?case by (blast intro: lifeOk_waitForReady)
next
  case (s_stop bc)
  then show ?case by (blast intro: lifeOk_stop)
qed

lemma reachable_lifeOk: "reachable a tc bc \<Longrightarrow> lifeOk bc"
  by (induction rule: reachable.induct) (blast intro: lifeOk_constructor step_lifeOk)+

text \<open>What one step does to the flag, the event and the listeners.\<close>

lemma step_ready:
  assumes "step a tc bc bc'" and "lifeOk bc"
  shows "(ready bc \<longrightarrow> ready bc') \<and>
         set (readyListeners bc) \<subseteq> set (readyListeners bc') \<and>
         (\<not> ready bc \<and> ready bc' \<longrightarrow>
            startupFinish bc = Some bc' \<and> emitted bc' = emitted bc @ [Ready] \<and>
            (intervalConfigured bc \<longrightarrow> miningTimeout bc' = Some (blockTime bc)) \<and>
            set (readyListeners bc) \<subseteq> set (resolved bc'))"
  using assms
proof (induction rule: step.induct)
  case (s_mineTipset n bc bc')
  from lifecycleView_mineTipset [OF s_mineTipset(1)] show ?case
    by (simp add: lifecycleView_def)
next
  case (s_startDeal pc pcid sp bc c bc')
  from lifecycleView_startDeal [OF s_startDeal(1)] show ?case
    by (simp add: lifecycleView_def)
next
  case (s_startupBegin bc bc')
  then show ?case by (auto simp: startupBegin_def split: if_splits)
next
  case (s_startupFinish bc bc')
  then show ?case
    by (auto simp: startupFinish_def emitReady_def Let_def intervalConfigured_def split: if_splits)
next
  case (s_waitForReady bc w)
  then show ?case by (auto simp: waitForReady_def)
next
  case (s_stop bc)
  then show ?case by (auto simp: stop_def Let_def split: option.splits)
qed

section \<open>Claims about the chain simulator\<close>

text \<open>
  \<^bold>\<open>C4\<close> (per-block advancement of deals). The claim: in every call of \<^verbatim>\<open>mineTipset\<close>, every
  deal pending at the start of the call advances by one step, has a \<^verbatim>\<open>dealStateChanged\<close>
  event published, and leaves the pending array exactly when it reaches \<^verbatim>\<open>Active\<close>. The
  loop removes the deal that became \<^verbatim>\<open>Active\<close> from the array it is iterating, so the deal
  behind it moves under the iterator and is passed over. With interval or manual mining,
  after \<^verbatim>\<open>startDeal\<close>, \<^verbatim>\<open>mineTipset\<close>, \<^verbatim>\<open>startDeal\<close> the pending array holds deal 0
  (\<^verbatim>\<open>Staged\<close>) and deal 1 (\<^verbatim>\<open>Validating\<close>); the next \<^verbatim>\<open>mineTipset\<close> moves deal 0 to
  \<^verbatim>\<open>Active\<close> and removes it, and deal 1 keeps its state and gets no event.
\<close>

theorem mineTipset_skips_deal_after_removal:
  "(case startDeal advanceStep (\<lambda>bs. []) 10 11 \<lparr>epochPrice = 1, minBlocksDuration = 5\<rparr>
          (constructor 0 \<lparr>opt_automining = Some False, opt_blockTime = None, opt_ipfsPort = None\<rparr>) of
      None \<Rightarrow> False
    | Some (c1, bc1) \<Rightarrow>
       (case mineTipset advanceStep (\<lambda>bs. []) 1 bc1 of
          Inl e \<Rightarrow> False
        | Inr bc2 \<Rightarrow>
           (case startDeal advanceStep (\<lambda>bs. []) 20 21 \<lparr>epochPrice = 1, minBlocksDuration = 5\<rparr> bc2 of
              None \<Rightarrow> False
            | Some (c3, bc3) \<Rightarrow>
               (case mineTipset advanceStep (\<lambda>bs. []) 1 bc3 of
                  Inl e \<Rightarrow> False
                | Inr bc4 \<Rightarrow>
                    inProcessDeals bc3 = [0, 1] \<and>
                    state (store bc3 ! 0) = Staged \<and> state (store bc3 ! 1) = Validating \<and>
                    state (store bc4 ! 0) = Active \<and> state (store bc4 ! 1) = Validating \<and>
                    emitted bc4 = emitted bc3 @ [DealStateChanged 0] \<and>
                    inProcessDeals bc4 = [1]))))"
  by (simp add: startDeal_def constructor_def mineTipset_def latestTipset_def Let_def newDeal_def
      advanceDeals.simps newBlocksLoop.simps advanceStep_def splice1_def firstCid_def)

text \<open>
  \<^bold>\<open>C5\<close> (shape of a produced tipset). For a chain whose latest tipset is \<open>T\<close> and a count
  \<open>n \<ge> 1\<close>, \<^verbatim>\<open>mineTipset(n)\<close> returns, appends exactly one tipset, which becomes the
  latest one, holds exactly \<open>n\<close> new blocks, each mined by the chain's miner with the
  single parent \<^verbatim>\<open>T.cids[0]\<close>, and has height \<open>height T + 1\<close>.
\<close>

theorem mineTipset_shape:
  assumes "latestTipset bc = Some T" and "1 \<le> n"
  shows "\<exists>bc' newT. mineTipset a tc n bc = Inr bc' \<and>
           tipsets bc' = tipsets bc @ [newT] \<and>
           latestTipset bc' = Some newT \<and>
           int (length (blocks newT)) = n \<and>
           (\<forall>b \<in> set (blocks newT). parents b = [firstCid T] \<and> b_miner b = Some (miner bc)) \<and>
           height newT = height T + 1"
proof -
  from assms(1) have ne: "tipsets bc \<noteq> []" and T: "T = last (tipsets bc)"
    by (auto simp: latestTipset_def split: if_splits)
  let ?t = "minedTipset tc n bc"
  let ?bc' = "advanceDeals a 0 (bc\<lparr> tipsets := tipsets bc @ [?t] \<rparr>)"
  have "mineTipset a tc n bc = Inr ?bc'" using ne by (simp add: mineTipset_eq)
  moreover have "tipsets ?bc' = tipsets bc @ [?t]" by simp
  moreover have "latestTipset ?bc' = Some ?t" by (simp add: latestTipset_def)
  moreover have "int (length (blocks ?t)) = n" using assms(2) by (simp add: minedTipset_def Let_def)
  moreover have "\<forall>b \<in> set (blocks ?t). parents b = [firstCid T] \<and> b_miner b = Some (miner bc)"
    by (simp add: minedTipset_def Let_def T)
  moreover have "height ?t = height T + 1" by (simp add: minedTipset_def Let_def T)
  ultimately show ?thesis by blast
qed

theorem mineTipset_shape_witness:
  "latestTipset (constructor 7 \<lparr>opt_automining = None, opt_blockTime = None, opt_ipfsPort = None\<rparr>) =
     Some \<lparr> cids = [7], blocks = [\<lparr> b_miner = None, parents = [] \<rparr>], height = 0 \<rparr> \<and>
   (\<exists>bc' newT. mineTipset advanceStep (\<lambda>bs. []) 3
        (constructor 7 \<lparr>opt_automining = None, opt_blockTime = None, opt_ipfsPort = None\<rparr>) = Inr bc' \<and>
      latestTipset bc' = Some newT \<and> length (blocks newT) = 3 \<and>
      blocks newT = replicate 3 \<lparr> b_miner = Some NewMiner, parents = [Some 7] \<rparr> \<and>
      height newT = 1)"
proof -
  let ?bc = "constructor 7 \<lparr>opt_automining = None, opt_blockTime = None, opt_ipfsPort = None\<rparr>"
  let ?T = "\<lparr> cids = [7], blocks = [\<lparr> b_miner = None, parents = [] \<rparr>], height = 0 \<rparr>"
  have l: "latestTipset ?bc = Some ?T"
    by (simp add: latestTipset_def constructor_def)
  have m: "miner ?bc = NewMiner" by (simp add: constructor_def)
  from mineTipset_shape [OF l, of 3 advanceStep "\<lambda>bs. []"]
  obtain bc' newT where *: "mineTipset advanceStep (\<lambda>bs. []) 3 ?bc = Inr bc'"
    "latestTipset bc' = Some newT" "int (length (blocks newT)) = 3"
    "\<forall>b \<in> set (blocks newT). parents b = [firstCid ?T] \<and> b_miner b = Some (miner ?bc)"
    "height newT = height ?T + 1"
    by auto
  from *(3) have len: "length (blocks newT) = 3" by simp
  have "blocks newT = replicate 3 \<lparr> b_miner = Some NewMiner, parents = [Some 7] \<rparr>"
  proof (rule replicate_eqI [OF len])
    fix b assume "b \<in> set (blocks newT)"
    with *(4) show "b = \<lparr> b_miner = Some NewMiner, parents = [Some 7] \<rparr>"
      by (cases b) (auto simp: firstCid_def m)
  qed
  with * l len show ?thesis by auto
qed

text \<open>
  \<^bold>\<open>C6\<close> (automine completes the deal). In a reachable state with \<^verbatim>\<open>automining\<close> set, let
  \<open>n\<close> be the number of applications of \<^verbatim>\<open>advanceState(true)\<close> that take the new deal from
  its initial state to \<^verbatim>\<open>Active\<close> (no fewer do). Then \<^verbatim>\<open>startDeal\<close> returns, it has
  produced exactly \<open>n\<close> tipsets, the new deal is \<^verbatim>\<open>Active\<close> and no longer pending, and
  every deal that existed before the call is as it was.
\<close>

theorem startDeal_automine_terminates:
  assumes "reachable a tc bc" and "automining bc"
    and "\<forall>k<n. state ((a True ^^ k) (newDeal pc pcid sp bc)) \<noteq> Active"
    and "state ((a True ^^ n) (newDeal pc pcid sp bc)) = Active"
  shows "\<exists>c bc'. startDeal a tc pc pcid sp bc = Some (c, bc') \<and>
           length (tipsets bc') = length (tipsets bc) + n \<and>
           state (store bc' ! length (store bc)) = Active \<and>
           (\<forall>r<length (store bc). store bc' ! r = store bc ! r) \<and>
           inProcessDeals bc' = []"
proof -
  let ?d = "length (store bc)"
  let ?b = "registered pc pcid sp bc"
  from reachable_idle [OF assms(1)] assms(2) have idle: "inProcessDeals bc = []"
    by (simp add: idleWhenAutomining_def)
  from reachable_chainOk [OF assms(1)] have ts: "tipsets ?b \<noteq> []"
    by (simp add: chainOk_def)
  have d: "?d < length (store ?b)" by simp
  have sole: "inProcessDeals ?b = [?d]" using idle by simp
  have new: "store ?b ! ?d = newDeal pc pcid sp bc" by simp
  have am: "automining ?b = True" using assms(2) by simp
  have n0: "0 < n"
  proof (rule ccontr)
    assume "\<not> 0 < n"
    with assms(4) show False by (simp add: newDeal_def)
  qed
  from mineUntilActive_sole [of ?d ?b n a tc, OF d ts sole] assms(3,4)
  obtain b' where run: "mineUntilActive a tc ?d ?b = Some b'"
    and len: "length (tipsets b') = length (tipsets ?b) + n"
    and st: "store b' = (store ?b)[?d := (a True ^^ n) (newDeal pc pcid sp bc)]"
    and inp: "inProcessDeals b' = (if n = 0 then inProcessDeals ?b else [])"
    unfolding new am by blast
  have "startDeal a tc pc pcid sp bc = Some (proposalCid (store b' ! ?d), b')"
    using assms(2) run by (simp add: startDeal_eq)
  moreover have "length (tipsets b') = length (tipsets bc) + n" using len by simp
  moreover have "state (store b' ! ?d) = Active" using assms(4) by (simp add: st)
  moreover have "\<forall>r<?d. store b' ! r = store bc ! r" by (simp add: st nth_append)
  moreover have "inProcessDeals b' = []" using inp n0 by simp
  ultimately show ?thesis by blast
qed

theorem startDeal_automine_terminates_witness:
  "reachable advanceStep (\<lambda>bs. []) (constructor 0 \<lparr>opt_automining = None, opt_blockTime = None, opt_ipfsPort = None\<rparr>) \<and>
   automining (constructor 0 \<lparr>opt_automining = None, opt_blockTime = None, opt_ipfsPort = None\<rparr>) \<and>
   (\<exists>c bc'. startDeal advanceStep (\<lambda>bs. []) 10 11 \<lparr>epochPrice = 1, minBlocksDuration = 5\<rparr>
              (constructor 0 \<lparr>opt_automining = None, opt_blockTime = None, opt_ipfsPort = None\<rparr>) = Some (c, bc') \<and>
            length (tipsets bc') = 3 \<and> state (store bc' ! 0) = Active \<and> inProcessDeals bc' = [])"
proof -
  let ?bc = "constructor 0 \<lparr>opt_automining = None, opt_blockTime = None, opt_ipfsPort = None\<rparr>"
  let ?nd = "newDeal 10 11 \<lparr>epochPrice = 1, minBlocksDuration = 5\<rparr> ?bc"
  have r: "reachable advanceStep (\<lambda>bs. []) ?bc" by (rule r_constructor)
  have am: "automining ?bc" by (simp add: constructor_def)
  have h1: "\<forall>k<2. state ((advanceStep True ^^ k) ?nd) \<noteq> Active"
    by (simp add: numeral_2_eq_2 less_Suc_eq newDeal_def advanceStep_def)
  have h2: "state ((advanceStep True ^^ 2) ?nd) = Active"
    by (simp add: numeral_2_eq_2 newDeal_def advanceStep_def)
  have l: "length (tipsets ?bc) = 1" "length (store ?bc) = 0"
    by (simp_all add: constructor_def)
  from startDeal_automine_terminates [OF r am h1 h2] r am
  show ?thesis unfolding l by auto
qed

text \<open>
  \<^bold>\<open>C7\<close> (shutdown safety). The claim: \<^verbatim>\<open>stop()\<close> does not fault in any state, also when
  the start-up never completed. \<^verbatim>\<open>ipfsServer\<close> is assigned only inside the start-up
  callback; on a freshly constructed \<^verbatim>\<open>Blockchain\<close> it is undefined and \<^verbatim>\<open>stop()\<close>
  throws a \<^verbatim>\<open>TypeError\<close> on \<^verbatim>\<open>this.ipfsServer.stop()\<close>.
\<close>

theorem stop_before_startup_faults:
  "fst (stop (constructor g options)) = Inl TypeError \<and>
   ipfsServer (constructor g options) = None \<and> startup (constructor g options) = Scheduled"
  by (simp add: stop_def constructor_def Let_def)

text \<open>
  \<^bold>\<open>C8\<close> (readiness is set once). The flag is false after construction. In every reachable
  state the number of \<^verbatim>\<open>ready\<close> events emitted is 1 when the flag is set and 0 otherwise;
  a set flag means the start-up callback has completed and the server has started; no
  promise of \<^verbatim>\<open>waitForReady\<close> is resolved while the flag is unset. No step unsets the
  flag or drops a listener, and the only step that sets it is the second part of the
  start-up callback, which emits \<^verbatim>\<open>ready\<close> once, has armed the interval timer when one is
  configured, and resolves every registered listener. \<^verbatim>\<open>waitForReady\<close> resolves inside the
  call when the flag is set and registers a listener otherwise.
\<close>

theorem readiness_one_shot:
  assumes "reachable a tc bc"
  shows "ready (constructor g options) = False \<and>
         count_list (emitted bc) Ready = (if ready bc then 1 else 0) \<and>
         (ready bc \<longrightarrow> startup bc = Completed \<and> (\<exists>s. ipfsServer bc = Some s \<and> started s)) \<and>
         (\<not> ready bc \<longrightarrow> resolved bc = []) \<and>
         (\<forall>bc'. step a tc bc bc' \<longrightarrow>
            (ready bc \<longrightarrow> ready bc') \<and>
            set (readyListeners bc) \<subseteq> set (readyListeners bc') \<and>
            (\<not> ready bc \<and> ready bc' \<longrightarrow>
               startupFinish bc = Some bc' \<and> emitted bc' = emitted bc @ [Ready] \<and>
               (intervalConfigured bc \<longrightarrow> miningTimeout bc' = Some (blockTime bc)) \<and>
               set (readyListeners bc) \<subseteq> set (resolved bc'))) \<and>
         (\<forall>w. waitForReady w bc =
            (if ready bc then (True, bc\<lparr> resolved := resolved bc @ [w] \<rparr>)
             else (False, bc\<lparr> readyListeners := readyListeners bc @ [w] \<rparr>)))"
proof -
  from reachable_lifeOk [OF assms] have ok: "lifeOk bc" .
  have f1: "ready (constructor g options) = False" by (simp add: constructor_def Let_def)
  have f2: "count_list (emitted bc) Ready = (if ready bc then 1 else 0)"
    using ok by (simp add: lifeOk_def)
  have f3: "ready bc \<longrightarrow> startup bc = Completed \<and> (\<exists>s. ipfsServer bc = Some s \<and> started s)"
    using ok by (simp add: lifeOk_def)
  have f4: "\<not> ready bc \<longrightarrow> resolved bc = []"
    using ok by (simp add: lifeOk_def)
  have f5: "\<forall>bc'. step a tc bc bc' \<longrightarrow>
            (ready bc \<longrightarrow> ready bc') \<and>
            set (readyListeners bc) \<subseteq> set (readyListeners bc') \<and>
            (\<not> ready bc \<and> ready bc' \<longrightarrow>
               startupFinish bc = Some bc' \<and> emitted bc' = emitted bc @ [Ready] \<and>
               (intervalConfigured bc \<longrightarrow> miningTimeout bc' = Some (blockTime bc)) \<and>
               set (readyListeners bc) \<subseteq> set (resolved bc'))"
  proof (intro allI impI)
    fix bc' assume "step a tc bc bc'"
    from step_ready [OF this ok]
    show "(ready bc \<longrightarrow> ready bc') \<and>
            set (readyListeners bc) \<subseteq> set (readyListeners bc') \<and>
            (\<not> ready bc \<and> ready bc' \<longrightarrow>
               startupFinish bc = Some bc' \<and> emitted bc' = emitted bc @ [Ready] \<and>
               (intervalConfigured bc \<longrightarrow> miningTimeout bc' = Some (blockTime bc)) \<and>
               set (readyListeners bc) \<subseteq> set (resolved bc'))" .
  qed
  have f6: "\<forall>w. waitForReady w bc =
            (if ready bc then (True, bc\<lparr> resolved := resolved bc @ [w] \<rparr>)
             else (False, bc\<lparr> readyListeners := readyListeners bc @ [w] \<rparr>))"
    by (simp add: waitForReady_def)
  show ?thesis by (intro conjI; fact)
qed

theorem readiness_one_shot_witness:
  "(let P = snd (waitForReady 5 (the (startupBegin
              (constructor 0 \<lparr>opt_automining = None, opt_blockTime = Some 1000, opt_ipfsPort = None\<rparr>))));
        B = the (startupFinish P)
    in reachable advanceStep (\<lambda>bs. []) P \<and> \<not> ready P \<and> resolved P = [] \<and>
       count_list (emitted P) Ready = 0 \<and> step advanceStep (\<lambda>bs. []) P B \<and> ready B \<and>
       emitted B = emitted P @ [Ready] \<and> miningTimeout B = Some 1000 \<and> 5 \<in> set (resolved B) \<and>
       fst (waitForReady 6 P) = False \<and> fst (waitForReady 6 B) = True)"
proof -
  let ?C = "constructor 0 \<lparr>opt_automining = None, opt_blockTime = Some 1000, opt_ipfsPort = None\<rparr>"
  let ?Q = "the (startupBegin ?C)"
  let ?P = "snd (waitForReady 5 ?Q)"
  let ?B = "the (startupFinish ?P)"
  have sC: "startup ?C = Scheduled" "ready ?C = False" "automining ?C = False" "blockTime ?C = 1000"
    by (simp_all add: constructor_def)
  have sb: "startupBegin ?C = Some ?Q" unfolding startupBegin_def by (simp add: sC)
  have Q: "startup ?Q = AwaitingStart" "ready ?Q = False" "automining ?Q = False" "blockTime ?Q = 1000"
    unfolding startupBegin_def by (simp_all add: sC)
  have P: "startup ?P = AwaitingStart" "ready ?P = False" "automining ?P = False" "blockTime ?P = 1000"
    unfolding waitForReady_def by (simp_all add: Q)
  have lP: "5 \<in> set (readyListeners ?P)"
    unfolding waitForReady_def by (simp add: Q)
  have "startupFinish ?P \<noteq> None" unfolding startupFinish_def by (simp add: P Let_def)
  then have sf: "startupFinish ?P = Some ?B" by simp
  have rB: "ready ?B" unfolding startupFinish_def [of ?P] by (simp add: P Let_def emitReady_def)
  have rQ: "reachable advanceStep (\<lambda>bs. []) ?Q"
    by (rule r_step [OF r_constructor s_startupBegin [OF sb]])
  have rP: "reachable advanceStep (\<lambda>bs. []) ?P"
    by (rule r_step [OF rQ s_waitForReady])
  have st: "step advanceStep (\<lambda>bs. []) ?P ?B" by (rule s_startupFinish [OF sf])
  have rB': "reachable advanceStep (\<lambda>bs. []) ?B" by (rule r_step [OF rP st])
  note T = readiness_one_shot [OF rP, of 0 "\<lparr>opt_automining = None, opt_blockTime = None, opt_ipfsPort = None\<rparr>"]
  note U = readiness_one_shot [OF rB', of 0 "\<lparr>opt_automining = None, opt_blockTime = None, opt_ipfsPort = None\<rparr>"]
  have f2: "\<not> ready ?P" by (simp add: P)
  have f3: "resolved ?P = []"
    using T [THEN conjunct2, THEN conjunct2, THEN conjunct2, THEN conjunct1] f2 by (rule mp)
  have f4: "count_list (emitted ?P) Ready = 0"
    using T [THEN conjunct2, THEN conjunct1] f2 by simp
  note S = T [THEN conjunct2, THEN conjunct2, THEN conjunct2, THEN conjunct2, THEN conjunct1,
      rule_format, OF st, THEN conjunct2, THEN conjunct2, rule_format, OF conjI [OF f2 rB]]
  have f7: "emitted ?B = emitted ?P @ [Ready]"
    by (rule S [THEN conjunct2, THEN conjunct1])
  have f8: "miningTimeout ?B = Some 1000"
    using S [THEN conjunct2, THEN conjunct2, THEN conjunct1] by (simp add: intervalConfigured_def P Q)
  have f9: "5 \<in> set (resolved ?B)"
    using S [THEN conjunct2, THEN conjunct2, THEN conjunct2] lP by (rule subsetD)
  have f10: "fst (waitForReady 6 ?P) = False"
    by (simp add: T [THEN conjunct2, THEN conjunct2, THEN conjunct2, THEN conjunct2, THEN conjunct2,
        rule_format] f2)
  have f11: "fst (waitForReady 6 ?B) = True"
    by (simp add: U [THEN conjunct2, THEN conjunct2, THEN conjunct2, THEN conjunct2, THEN conjunct2,
        rule_format] rB)
  show ?thesis unfolding Let_def
    by (intro conjI) (fact rP f2 f3 f4 st rB f7 f8 f9 f10 f11)+
qed

text \<open>
  \<^bold>\<open>C9\<close> (interval mode overrides automine). When the options give a \<^verbatim>\<open>blockTime\<close>
  greater than 0, the constructed instance has \<^verbatim>\<open>automining\<close> false, whatever the options
  say about \<^verbatim>\<open>automining\<close>, and interval mining is what is configured. In no reachable
  state is the interval timer armed while \<^verbatim>\<open>automining\<close> is set.
\<close>

theorem interval_overrides_automining:
  assumes "opt_blockTime options = Some t" and "0 < t"
  shows "automining (constructor g options) = False \<and>
         intervalConfigured (constructor g options) \<and>
         (\<forall>bc. reachable a tc bc \<longrightarrow> \<not> (automining bc \<and> miningTimeout bc \<noteq> None))"
proof -
  have "automining (constructor g options) = False \<and> intervalConfigured (constructor g options)"
    using assms by (simp add: constructor_def Let_def intervalConfigured_def)
  moreover have "\<forall>bc. reachable a tc bc \<longrightarrow> \<not> (automining bc \<and> miningTimeout bc \<noteq> None)"
  proof (intro allI impI)
    fix bc assume "reachable a tc bc"
    from reachable_lifeOk [OF this] show "\<not> (automining bc \<and> miningTimeout bc \<noteq> None)"
      by (auto simp: lifeOk_def)
  qed
  ultimately show ?thesis by simp
qed

theorem interval_overrides_automining_witness:
  "automining (constructor 0 \<lparr>opt_automining = Some True, opt_blockTime = Some 1000, opt_ipfsPort = None\<rparr>) = False \<and>
   intervalConfigured (constructor 0 \<lparr>opt_automining = Some True, opt_blockTime = Some 1000, opt_ipfsPort = None\<rparr>)"
  using interval_overrides_automining
    [of "\<lparr>opt_automining = Some True, opt_blockTime = Some 1000, opt_ipfsPort = None\<rparr>" 1000 0
      advanceStep "\<lambda>bs. []"]
  by simp

text \<open>
  \<^bold>\<open>C10\<close> (heights of the chain). In every reachable state the array of tipsets is not
  empty, the tipset at index \<open>i\<close> has height \<open>i\<close>, the latest tipset has height
  \<open>length - 1\<close>, and every call of \<^verbatim>\<open>mineTipset\<close> returns with exactly one tipset appended
  and the earlier ones unchanged.
\<close>

theorem chain_height_invariant:
  assumes "reachable a tc bc"
  shows "tipsets bc \<noteq> [] \<and>
         (\<forall>i<length (tipsets bc). height (tipsets bc ! i) = int i) \<and>
         (\<exists>T. latestTipset bc = Some T \<and> height T = int (length (tipsets bc)) - 1) \<and>
         (\<forall>n. \<exists>t bc'. mineTipset a tc n bc = Inr bc' \<and> tipsets bc' = tipsets bc @ [t])"
proof -
  from reachable_chainOk [OF assms] have ok: "chainOk bc" .
  then have ne: "tipsets bc \<noteq> []" by (simp add: chainOk_def)
  moreover have "\<forall>i<length (tipsets bc). height (tipsets bc ! i) = int i"
    using chainOk_nth [OF ok] by blast
  moreover have "\<exists>T. latestTipset bc = Some T \<and> height T = int (length (tipsets bc)) - 1"
    using ne chainOk_last [OF ok] by (simp add: latestTipset_def)
  moreover have "\<forall>n. \<exists>t bc'. mineTipset a tc n bc = Inr bc' \<and> tipsets bc' = tipsets bc @ [t]"
    using ne by (simp add: mineTipset_eq)
  ultimately show ?thesis by blast
qed

theorem chain_height_invariant_witness:
  "(let B = mineOnce advanceStep (\<lambda>bs. [])
              (constructor 0 \<lparr>opt_automining = None, opt_blockTime = None, opt_ipfsPort = None\<rparr>)
    in reachable advanceStep (\<lambda>bs. []) B \<and> length (tipsets B) = 2 \<and>
       height (tipsets B ! 0) = 0 \<and> height (tipsets B ! 1) = 1 \<and>
       (\<exists>T. latestTipset B = Some T \<and> height T = 1) \<and>
       (\<exists>t bc'. mineTipset advanceStep (\<lambda>bs. []) 4 B = Inr bc' \<and> tipsets bc' = tipsets B @ [t]))"
proof -
  let ?C = "constructor 0 \<lparr>opt_automining = None, opt_blockTime = None, opt_ipfsPort = None\<rparr>"
  let ?B = "mineOnce advanceStep (\<lambda>bs. []) ?C"
  have ne: "tipsets ?C \<noteq> []" by (simp add: constructor_def)
  have m: "mineTipset advanceStep (\<lambda>bs. []) 1 ?C = Inr ?B"
    using ne by (simp add: mineOnce_eq mineTipset_eq)
  have r: "reachable advanceStep (\<lambda>bs. []) ?B"
    by (rule r_step [OF r_constructor s_mineTipset [OF m]])
  have len: "length (tipsets ?B) = 2"
    using ne by (simp add: mineOnce_eq) (simp add: constructor_def)
  from chain_height_invariant [OF r] r len
  show ?thesis unfolding Let_def by (auto simp: numeral_2_eq_2 less_Suc_eq)
qed

section \<open>Properties of the checkpoint system\<close>

subsection \<open>What the cache shows\<close>

lemma cview_read [simp]: "cview (snd (read k c)) = cview c"
proof -
  have "memory c k = None \<Longrightarrow> backing c k = Some v \<Longrightarrow>
          backing c ++ (memory c)(k \<mapsto> v) = backing c ++ memory c" for v
    by (rule ext) (simp add: map_add_def split: option.splits)
  then show ?thesis
    by (simp add: read_def cview_def split: option.splits)
qed

lemma fst_read [simp]: "fst (read k c) = cview c k"
  by (simp add: read_def cview_def map_add_def split: option.splits)

lemma cview_write [simp]: "cview (write_c k v c) = (cview c)(k \<mapsto> v)"
  by (simp add: write_c_def cview_def)

lemma cview_evict [simp]: "cview (evict k c) = cview c"
proof (cases "memory c k")
  case None
  then show ?thesis by (simp add: evict_def)
next
  case (Some v)
  have "(backing c)(k \<mapsto> v) ++ (memory c)(k := None) = backing c ++ memory c"
    using Some by (intro ext) (simp add: map_add_def split: option.splits)
  with Some show ?thesis by (simp add: evict_def cview_def)
qed

lemma cview_commit [simp]: "cview (snd (commit c)) = cview c" "fst (commit c) = cview c"
proof -
  have "backing c ++ memory c ++ memory c = backing c ++ memory c"
    by (rule ext) (simp add: map_add_def split: option.splits)
  then show "cview (snd (commit c)) = cview c" by (simp add: commit_def cview_def)
  show "fst (commit c) = cview c" by (simp add: commit_def cview_def)
qed

lemma cview_restore [simp]: "cview (restore h c) = h"
  by (simp add: restore_def cview_def)

lemma cview_fresh [simp]: "cview \<lparr> backing = b, memory = Map.empty \<rparr> = b"
  by (simp add: cview_def)

lemma cview_writes:
  "cview (fold (\<lambda>(k, v). write_c k v) ws c) = fold (\<lambda>(k, v) m. m(k \<mapsto> v)) ws (cview c)"
  by (induction ws arbitrary: c) (auto simp: split_def)

subsection \<open>What the ledger operations change\<close>

lemma produce_eq:
  "produce self ops L =
     (if chain L = [] then Inl SequenceError
      else Inr (L\<lparr> chain := chain L @ [\<lparr> l_height = l_height (last (chain L)) + 1,
                                          l_parents = [l_self (last (chain L))], l_self = self,
                                          l_stateRoot = cview (cache L), l_ops = ops \<rparr>],
                    cache := snd (commit (cache L)),
                    entities := fst (advanceAll (entities L) (pendingEntities L)),
                    pendingEntities := snd (advanceAll (entities L) (pendingEntities L)) \<rparr>))"
  by (simp add: produce_def latest_def append_block_def split_def Let_def)

lemma submitOperation_eq:
  "submitOperation execute p self L =
     (if chain L = [] then Inl SequenceError
      else Inr (nextOperation L,
             L\<lparr> chain := chain L @
                   [\<lparr> l_height = l_height (last (chain L)) + 1,
                      l_parents = [l_self (last (chain L))], l_self = self,
                      l_stateRoot = fold (\<lambda>(k, v) m. m(k \<mapsto> v)) (snd (snd (execute p (cview (cache L))))) (cview (cache L)),
                      l_ops = [(nextOperation L,
                                \<lparr> r_block = self, r_success = fst (execute p (cview (cache L))),
                                  r_return = fst (snd (execute p (cview (cache L)))),
                                  r_writes = snd (snd (execute p (cview (cache L)))) \<rparr>)] \<rparr>],
                cache := snd (commit (fold (\<lambda>(k, v). write_c k v) (snd (snd (execute p (cview (cache L))))) (cache L))),
                nextOperation := nextOperation L + 1,
                entities := fst (advanceAll (entities L) (pendingEntities L)),
                pendingEntities := snd (advanceAll (entities L) (pendingEntities L)) \<rparr>))"
proof -
  obtain ok ret ws where e: "execute p (cview (cache L)) = (ok, ret, ws)"
    by (cases "execute p (cview (cache L))") auto
  show ?thesis
    by (simp add: submitOperation_def produce_eq e cview_writes Let_def)
qed


lemma findCheckpoint_Some:
  "findCheckpoint i cps = Some cp \<Longrightarrow> 1 \<le> i \<and> nat (i - 1) < length cps \<and> cp = cps ! nat (i - 1)"
  by (auto simp: findCheckpoint_def split: if_splits)

lemma length_cascade [simp]: "length (cascade i cps) = length cps"
  by (simp add: cascade_def)

lemma nth_cascade:
  "j < length cps \<Longrightarrow>
   cascade i cps ! j = (if j < nat (i - 1) then cps ! j else (cps ! j)\<lparr> status := CpReverted \<rparr>)"
  by (auto simp: cascade_def nth_append min_def)

text \<open>The four ways a call changes chain and checkpoints.\<close>

definition grows :: "Ledger \<Rightarrow> Ledger \<Rightarrow> bool" where
  "grows L L' = (chain L \<noteq> [] \<and> checkpoints L' = checkpoints L \<and> (\<exists>b. chain L' = chain L @ [b]))"

definition keeps :: "Ledger \<Rightarrow> Ledger \<Rightarrow> bool" where
  "keeps L L' = (checkpoints L' = checkpoints L \<and> chain L' = chain L \<and>
                 cview (cache L') = cview (cache L))"

definition snapshots :: "Ledger \<Rightarrow> Ledger \<Rightarrow> bool" where
  "snapshots L L' = (chain L' = chain L \<and> cview (cache L') = cview (cache L) \<and>
     checkpoints L' = checkpoints L @
       [\<lparr> chainLength = length (chain L) - 1, cacheHandle = cview (cache L),
          entityStates = entities L, entityPending = pendingEntities L, status = CpActive \<rparr>])"

definition reverts :: "int \<Rightarrow> Ledger \<Rightarrow> Ledger \<Rightarrow> bool" where
  "reverts i L L' =
     (1 \<le> i \<and> nat (i - 1) < length (checkpoints L) \<and>
      status (checkpoints L ! nat (i - 1)) = CpActive \<and>
      chainLength (checkpoints L ! nat (i - 1)) < length (chain L) \<and>
      chain L' = take (chainLength (checkpoints L ! nat (i - 1)) + 1) (chain L) \<and>
      checkpoints L' = cascade i (checkpoints L) \<and>
      cview (cache L') = cacheHandle (checkpoints L ! nat (i - 1)) \<and>
      entities L' = entityStates (checkpoints L ! nat (i - 1)) \<and>
      pendingEntities L' = entityPending (checkpoints L ! nat (i - 1)))"

lemma revert_cases:
  assumes "revert i L = Inr (b, L')"
  shows "(b \<and> reverts i L L') \<or> (\<not> b \<and> L' = L)"
proof (cases "findCheckpoint i (checkpoints L)")
  case None
  with assms show ?thesis by (simp add: revert_def)
next
  case (Some cp)
  note cp = findCheckpoint_Some [OF Some]
  show ?thesis
  proof (cases "status cp = CpReverted")
    case True
    with assms Some show ?thesis by (simp add: revert_def)
  next
    case False
    then have act: "status cp = CpActive" by (cases "status cp") simp_all
    show ?thesis
    proof (cases "chainLength cp < length (chain L)")
      case True
      with assms Some False have b: "b"
        and L': "L' = L\<lparr> checkpoints := cascade i (checkpoints L),
                          chain := take (chainLength cp + 1) (chain L),
                          cache := restore (cacheHandle cp) (cache L),
                          entities := entityStates cp,
                          pendingEntities := entityPending cp \<rparr>"
        by (simp_all add: revert_def truncateTo_def)
      have "reverts i L L'"
        unfolding reverts_def L' using cp act True by simp
      with b show ?thesis by simp
    next
      case False
      with assms Some \<open>status cp \<noteq> CpReverted\<close> show ?thesis
        by (simp add: revert_def truncateTo_def)
    qed
  qed
qed

lemma call_Submit: "call execute (Submit p self) L = Inr L' \<Longrightarrow> grows L L'"
  by (auto simp: submitOperation_eq grows_def split: if_splits)

lemma call_ProduceBlock: "call execute (ProduceBlock self) L = Inr L' \<Longrightarrow> grows L L'"
  by (auto simp: produceBlock_def produce_eq grows_def split: if_splits)

lemma call_ReadStorage: "call execute (ReadStorage k) L = Inr L' \<Longrightarrow> keeps L L'"
  by (auto simp: readStorage_def keeps_def)

lemma call_EvictStorage: "call execute (EvictStorage k) L = Inr L' \<Longrightarrow> keeps L L'"
  by (auto simp: evictStorage_def keeps_def)

lemma call_Snapshot: "call execute Snapshot L = Inr L' \<Longrightarrow> snapshots L L'"
  by (auto simp: snapshot_def snapshots_def snapshotHandle_def)

lemma call_RegisterEntity: "call execute RegisterEntity L = Inr L' \<Longrightarrow> keeps L L'"
  by (auto simp: registerDependentEntity_def keeps_def)

lemma call_Revert:
  assumes "call execute (Revert i) L = Inr L'"
  shows "reverts i L L' \<or> keeps L L'"
proof -
  from assms obtain r where r: "revert i L = Inr r" and L': "L' = snd r"
    by (cases "revert i L") simp_all
  from r L' have "revert i L = Inr (fst r, L')" by simp
  from revert_cases [OF this] show ?thesis
    by (auto simp: keeps_def)
qed

lemma call_effect:
  assumes "call execute c L = Inr L'"
  shows "grows L L' \<or> keeps L L' \<or> snapshots L L' \<or> (\<exists>i. reverts i L L')"
proof (cases c)
  case (Submit p self)
  with assms have "grows L L'" by (simp only: call_Submit)
  then show ?thesis by simp
next
  case (ProduceBlock self)
  with assms have "grows L L'" by (simp only: call_ProduceBlock)
  then show ?thesis by simp
next
  case (ReadStorage k)
  with assms have "keeps L L'" by (simp only: call_ReadStorage)
  then show ?thesis by simp
next
  case (EvictStorage k)
  with assms have "keeps L L'" by (simp only: call_EvictStorage)
  then show ?thesis by simp
next
  case Snapshot
  with assms have "snapshots L L'" by (simp only: call_Snapshot)
  then show ?thesis by simp
next
  case (Revert i)
  with assms have "reverts i L L' \<or> keeps L L'" by (simp only: call_Revert)
  then show ?thesis by blast
next
  case RegisterEntity
  with assms have "keeps L L'" by (simp only: call_RegisterEntity)
  then show ?thesis by simp
qed

subsection \<open>Invariants of the ledger\<close>

text \<open>
  An Active checkpoint points into the chain, and Active checkpoints created later point
  at least as far.
\<close>

definition ledgerOk :: "Ledger \<Rightarrow> bool" where
  "ledgerOk L =
     (chain L \<noteq> [] \<and>
      (\<forall>j<length (checkpoints L). status (checkpoints L ! j) = CpActive \<longrightarrow>
         chainLength (checkpoints L ! j) < length (chain L) \<and>
         (\<forall>i<j. status (checkpoints L ! i) = CpActive \<longrightarrow>
            chainLength (checkpoints L ! i) \<le> chainLength (checkpoints L ! j))))"

lemma ledgerOk_genesis: "ledgerOk (genesisLedger g initial)"
  by (simp add: ledgerOk_def genesisLedger_def)

lemma ledgerOk_grows: "ledgerOk L \<Longrightarrow> grows L L' \<Longrightarrow> ledgerOk L'"
  by (fastforce simp: ledgerOk_def grows_def)

lemma ledgerOk_keeps: "ledgerOk L \<Longrightarrow> keeps L L' \<Longrightarrow> ledgerOk L'"
  by (simp add: ledgerOk_def keeps_def)

lemma ledgerOk_snapshots:
  assumes "ledgerOk L" and "snapshots L L'"
  shows "ledgerOk L'"
proof -
  let ?n = "length (checkpoints L)"
  let ?new = "\<lparr> chainLength = length (chain L) - 1, cacheHandle = cview (cache L),
                 entityStates = entities L, entityPending = pendingEntities L, status = CpActive \<rparr>"
  from assms(2) have ch: "chain L' = chain L" and cps: "checkpoints L' = checkpoints L @ [?new]"
    by (simp_all add: snapshots_def)
  from assms(1) have ne: "chain L \<noteq> []" by (simp add: ledgerOk_def)
  have old: "checkpoints L' ! j = checkpoints L ! j" if "j < ?n" for j
    using that by (simp add: cps nth_append)
  have new: "checkpoints L' ! ?n = ?new" by (simp add: cps)
  show ?thesis
    unfolding ledgerOk_def
  proof (intro conjI allI impI)
    show "chain L' \<noteq> []" using ne ch by simp
  next
    fix j assume j: "j < length (checkpoints L')" and a: "status (checkpoints L' ! j) = CpActive"
    show "chainLength (checkpoints L' ! j) < length (chain L')"
    proof (cases "j < ?n")
      case True
      with assms(1) a show ?thesis by (simp add: old ch ledgerOk_def)
    next
      case False
      with j have "j = ?n" by (simp add: cps)
      then show ?thesis using ne by (simp add: new ch)
    qed
  next
    fix j i assume j: "j < length (checkpoints L')" and a: "status (checkpoints L' ! j) = CpActive"
      and i: "i < j" and ai: "status (checkpoints L' ! i) = CpActive"
    show "chainLength (checkpoints L' ! i) \<le> chainLength (checkpoints L' ! j)"
    proof (cases "j < ?n")
      case True
      with assms(1) a i ai show ?thesis by (simp add: old ledgerOk_def)
    next
      case False
      with j have jn: "j = ?n" by (simp add: cps)
      with i assms(1) ai have "chainLength (checkpoints L ! i) < length (chain L)"
        by (simp add: old ledgerOk_def)
      then show ?thesis using jn i by (simp add: new old)
    qed
  qed
qed

lemma ledgerOk_reverts:
  assumes "ledgerOk L" and "reverts t L L'"
  shows "ledgerOk L'"
proof -
  let ?k = "nat (t - 1)"
  let ?c = "chainLength (checkpoints L ! ?k)"
  from assms(2) have k: "?k < length (checkpoints L)"
    and ak: "status (checkpoints L ! ?k) = CpActive"
    and c: "?c < length (chain L)"
    and ch: "chain L' = take (?c + 1) (chain L)"
    and cps: "checkpoints L' = cascade t (checkpoints L)"
    by (simp_all add: reverts_def)
  have len: "length (chain L') = ?c + 1" using c by (simp add: ch)
  have act: "j < ?k \<and> checkpoints L' ! j = checkpoints L ! j"
    if "j < length (checkpoints L')" "status (checkpoints L' ! j) = CpActive" for j
    using that by (auto simp: cps nth_cascade split: if_splits)
  show ?thesis
    unfolding ledgerOk_def
  proof (intro conjI allI impI)
    show "chain L' \<noteq> []" using len by auto
  next
    fix j assume j: "j < length (checkpoints L')" and a: "status (checkpoints L' ! j) = CpActive"
    from act [OF j a] have jk: "j < ?k" and same: "checkpoints L' ! j = checkpoints L ! j" by simp_all
    from assms(1) k ak jk a same have "chainLength (checkpoints L ! j) \<le> ?c"
      by (simp add: ledgerOk_def)
    then show "chainLength (checkpoints L' ! j) < length (chain L')"
      by (simp add: same len)
  next
    fix j i assume j: "j < length (checkpoints L')" and a: "status (checkpoints L' ! j) = CpActive"
      and i: "i < j" and ai: "status (checkpoints L' ! i) = CpActive"
    from act [OF j a] have jk: "j < ?k" and same: "checkpoints L' ! j = checkpoints L ! j" by simp_all
    from i j have i': "i < length (checkpoints L')" by simp
    from act [OF i' ai] have samei: "checkpoints L' ! i = checkpoints L ! i" by simp
    from assms(1) jk k a ai i same samei
    show "chainLength (checkpoints L' ! i) \<le> chainLength (checkpoints L' ! j)"
      by (simp add: ledgerOk_def)
  qed
qed

lemma ledgerOk_call:
  assumes "ledgerOk L" and "call execute c L = Inr L'"
  shows "ledgerOk L'"
  using call_effect [OF assms(2)] assms(1)
  by (blast intro: ledgerOk_grows ledgerOk_keeps ledgerOk_snapshots ledgerOk_reverts)

lemma ledgerOk_reachable: "ledgerReachable execute L \<Longrightarrow> ledgerOk L"
  by (induction rule: ledgerReachable.induct) (blast intro: ledgerOk_genesis ledgerOk_call)+

subsection \<open>What \<^verbatim>\<open>revert\<close> returns\<close>

lemma revert_unknown:
  "i < 1 \<or> int (length (checkpoints L)) < i \<Longrightarrow> revert i L = Inr (False, L)"
  by (auto simp: revert_def findCheckpoint_def)

lemma revert_Reverted:
  "findCheckpoint i (checkpoints L) = Some cp \<Longrightarrow> status cp = CpReverted \<Longrightarrow>
   revert i L = Inr (False, L)"
  by (simp add: revert_def)

lemma revert_Active:
  assumes "ledgerOk L" and "findCheckpoint i (checkpoints L) = Some cp" and "status cp = CpActive"
  shows "\<exists>L'. revert i L = Inr (True, L') \<and> reverts i L L'"
proof -
  note cp = findCheckpoint_Some [OF assms(2)]
  from assms(1,3) cp have "chainLength cp < length (chain L)"
    by (simp add: ledgerOk_def)
  with assms(2,3) have "revert i L = Inr (True, L\<lparr> checkpoints := cascade i (checkpoints L),
                          chain := take (chainLength cp + 1) (chain L),
                          cache := restore (cacheHandle cp) (cache L),
                          entities := entityStates cp,
                          pendingEntities := entityPending cp \<rparr>)"
    by (simp add: revert_def truncateTo_def)
  with revert_cases [OF this] show ?thesis by simp
qed

lemma revert_total:
  assumes "ledgerOk L"
  shows "\<exists>b L'. revert i L = Inr (b, L')"
proof (cases "findCheckpoint i (checkpoints L)")
  case None
  then have "revert i L = Inr (False, L)" by (simp add: revert_def)
  then show ?thesis by blast
next
  case (Some cp)
  show ?thesis
  proof (cases "status cp")
    case CpActive
    from revert_Active [OF assms Some CpActive] show ?thesis by blast
  next
    case CpReverted
    from revert_Reverted [OF Some CpReverted] show ?thesis by blast
  qed
qed

lemma reverts_cascaded:
  assumes "reverts t L L'" and "t \<le> s" and "findCheckpoint s (checkpoints L') = Some cp"
  shows "status cp = CpReverted"
proof -
  note cp = findCheckpoint_Some [OF assms(3)]
  from assms(1) have cps: "checkpoints L' = cascade t (checkpoints L)" and t: "1 \<le> t"
    by (simp_all add: reverts_def)
  from assms(2) t have "\<not> nat (s - 1) < nat (t - 1)" by simp
  moreover from cp have "nat (s - 1) < length (checkpoints L)" by (simp add: cps)
  ultimately have "cascade t (checkpoints L) ! nat (s - 1) =
      (checkpoints L ! nat (s - 1))\<lparr> status := CpReverted \<rparr>"
    by (simp only: nth_cascade if_False)
  with cp show ?thesis by (simp add: cps)
qed

lemma reverts_then_false:
  assumes "reverts t L L'" and "t \<le> s"
  shows "revert s L' = Inr (False, L')"
proof (cases "findCheckpoint s (checkpoints L')")
  case None
  then show ?thesis by (simp add: revert_def)
next
  case (Some cp)
  from revert_Reverted [OF Some reverts_cascaded [OF assms Some]] show ?thesis .
qed

text \<open>A checkpoint that is Reverted stays so.\<close>

definition reverted :: "nat \<Rightarrow> Ledger \<Rightarrow> bool" where
  "reverted k L = (k < length (checkpoints L) \<and> status (checkpoints L ! k) = CpReverted)"

lemma reverted_call:
  assumes "reverted k L" and "call execute c L = Inr L'"
  shows "reverted k L'"
proof -
  from call_effect [OF assms(2)]
  consider "grows L L'" | "keeps L L'" | "snapshots L L'" | t where "reverts t L L'" by blast
  then show ?thesis
  proof cases
    case 1
    with assms(1) show ?thesis by (simp add: reverted_def grows_def)
  next
    case 2
    with assms(1) show ?thesis by (simp add: reverted_def keeps_def)
  next
    case 3
    with assms(1) show ?thesis by (simp add: reverted_def snapshots_def nth_append)
  next
    case 4
    with assms(1) show ?thesis by (simp add: reverted_def reverts_def nth_cascade)
  qed
qed

lemma reverted_calls:
  "reverted k L \<Longrightarrow> calls execute cs L = Inr L' \<Longrightarrow> reverted k L'"
proof (induction cs arbitrary: L)
  case Nil
  then show ?case by simp
next
  case (Cons c cs)
  from Cons.prems(2) obtain L1 where c: "call execute c L = Inr L1" and cs: "calls execute cs L1 = Inr L'"
    by (cases "call execute c L") simp_all
  from Cons.IH [OF reverted_call [OF Cons.prems(1) c] cs] show ?case .
qed

lemma reverted_revert:
  assumes "reverted (nat (i - 1)) L" and "1 \<le> i"
  shows "revert i L = Inr (False, L)"
proof -
  from assms have "findCheckpoint i (checkpoints L) = Some (checkpoints L ! nat (i - 1))"
    by (auto simp: findCheckpoint_def reverted_def)
  from revert_Reverted [OF this] assms(1) show ?thesis by (simp add: reverted_def)
qed

lemma ledgerOk_calls:
  "ledgerOk L \<Longrightarrow> calls execute cs L = Inr L' \<Longrightarrow> ledgerOk L'"
proof (induction cs arbitrary: L)
  case Nil
  then show ?case by simp
next
  case (Cons c cs)
  from Cons.prems(2) obtain L1 where c: "call execute c L = Inr L1" and cs: "calls execute cs L1 = Inr L'"
    by (cases "call execute c L") simp_all
  from Cons.IH [OF ledgerOk_call [OF Cons.prems(1) c] cs] show ?case .
qed

lemma checkpoints_length_call:
  assumes "call execute c L = Inr L'"
  shows "length (checkpoints L) \<le> length (checkpoints L')"
  using call_effect [OF assms]
  by (auto simp: grows_def keeps_def snapshots_def reverts_def)

lemma checkpoints_length_calls:
  "calls execute cs L = Inr L' \<Longrightarrow> length (checkpoints L) \<le> length (checkpoints L')"
proof (induction cs arbitrary: L)
  case Nil
  then show ?case by simp
next
  case (Cons c cs)
  from Cons.prems obtain L1 where c: "call execute c L = Inr L1" and cs: "calls execute cs L1 = Inr L'"
    by (cases "call execute c L") simp_all
  from checkpoints_length_call [OF c] Cons.IH [OF cs] show ?case by simp
qed

lemma revert_once:
  assumes "revert i L = Inr (True, L3)" and "calls execute cs L3 = Inr L4"
  shows "revert i L4 = Inr (False, L4)"
proof -
  from revert_cases [OF assms(1)] have rv: "reverts i L L3" by simp
  then have "reverted (nat (i - 1)) L3" and i: "1 \<le> i"
    by (simp_all add: reverted_def reverts_def nth_cascade)
  from reverted_revert [OF reverted_calls [OF this(1) assms(2)] i] show ?thesis .
qed

text \<open>
  \<^bold>\<open>C2\<close> (cascade invalidation, revertible once). Let \<open>s1\<close> and then \<open>s2\<close> be returned by
  \<^verbatim>\<open>snapshot()\<close>, with any calls in between and after, and let \<open>s1\<close> still be Active.
  Then \<open>s1 < s2\<close>, \<^verbatim>\<open>revert(s1)\<close> returns true and leaves \<open>s1\<close> and every checkpoint created
  after it Reverted, and from then on \<^verbatim>\<open>revert(s2)\<close> and \<^verbatim>\<open>revert(s1)\<close> return false,
  whatever is called in between. In general a \<^verbatim>\<open>revert\<close> that has returned true for an id
  returns false for it ever after.
\<close>

theorem cascade_invalidation:
  assumes "ledgerReachable execute L0"
    and "snapshot L0 = (s1, L1)" and "calls execute cs1 L1 = Inr L1'"
    and "snapshot L1' = (s2, L2)" and "calls execute cs2 L2 = Inr L"
    and "findCheckpoint s1 (checkpoints L) = Some cp1" and "status cp1 = CpActive"
  shows "s1 < s2 \<and>
         (\<exists>L3. revert s1 L = Inr (True, L3) \<and>
            (\<forall>s cp. s1 \<le> s \<longrightarrow> findCheckpoint s (checkpoints L3) = Some cp \<longrightarrow>
               status cp = CpReverted) \<and>
            revert s2 L3 = Inr (False, L3) \<and> revert s1 L3 = Inr (False, L3) \<and>
            (\<forall>cs L4. calls execute cs L3 = Inr L4 \<longrightarrow>
               revert s2 L4 = Inr (False, L4) \<and> revert s1 L4 = Inr (False, L4))) \<and>
         (\<forall>i La Lb cs Lc. revert i La = Inr (True, Lb) \<longrightarrow> calls execute cs Lb = Inr Lc \<longrightarrow>
            revert i Lc = Inr (False, Lc))"
proof -
  from assms(2) have s1: "s1 = int (length (checkpoints L0)) + 1"
    and l1: "length (checkpoints L1) = length (checkpoints L0) + 1"
    by (auto simp: snapshot_def)
  from assms(4) have s2: "s2 = int (length (checkpoints L1')) + 1"
    by (auto simp: snapshot_def)
  from checkpoints_length_calls [OF assms(3)] s1 s2 l1 have lt: "s1 < s2" by simp
  have ok0: "ledgerOk L0" by (rule ledgerOk_reachable [OF assms(1)])
  have c1: "call execute Snapshot L0 = Inr L1" using assms(2) by simp
  have c2: "call execute Snapshot L1' = Inr L2" using assms(4) by simp
  have ok: "ledgerOk L"
    by (rule ledgerOk_calls [OF ledgerOk_call [OF ledgerOk_calls [OF ledgerOk_call [OF ok0 c1] assms(3)] c2] assms(5)])
  from revert_Active [OF ok assms(6,7)]
  obtain L3 where r: "revert s1 L = Inr (True, L3)" and rv: "reverts s1 L L3" by blast
  have f1: "\<forall>s cp. s1 \<le> s \<longrightarrow> findCheckpoint s (checkpoints L3) = Some cp \<longrightarrow> status cp = CpReverted"
    using reverts_cascaded [OF rv] by blast
  have f2: "revert s2 L3 = Inr (False, L3)"
    using reverts_then_false [OF rv, of s2] lt by simp
  have f3: "revert s1 L3 = Inr (False, L3)"
    using reverts_then_false [OF rv, of s1] by simp
  have one: "1 \<le> s1" "1 \<le> s2" using s1 s2 by simp_all
  have k2: "nat (s2 - 1) < length (checkpoints L3)"
  proof -
    have "length (checkpoints L2) = length (checkpoints L1') + 1"
      using assms(4) by (auto simp: snapshot_def)
    with checkpoints_length_calls [OF assms(5)] s2 rv show ?thesis
      by (simp add: reverts_def)
  qed
  have r1: "reverted (nat (s1 - 1)) L3"
    using rv by (simp add: reverted_def reverts_def nth_cascade)
  have r2: "reverted (nat (s2 - 1)) L3"
  proof -
    from k2 one lt have "findCheckpoint s2 (checkpoints L3) = Some (checkpoints L3 ! nat (s2 - 1))"
      by (auto simp: findCheckpoint_def)
    from reverts_cascaded [OF rv _ this] lt k2 show ?thesis by (simp add: reverted_def)
  qed
  have f4: "\<forall>cs L4. calls execute cs L3 = Inr L4 \<longrightarrow>
               revert s2 L4 = Inr (False, L4) \<and> revert s1 L4 = Inr (False, L4)"
  proof (intro allI impI conjI)
    fix cs L4 assume run: "calls execute cs L3 = Inr L4"
    show "revert s2 L4 = Inr (False, L4)"
      by (rule reverted_revert [OF reverted_calls [OF r2 run] one(2)])
    show "revert s1 L4 = Inr (False, L4)"
      by (rule reverted_revert [OF reverted_calls [OF r1 run] one(1)])
  qed
  have f5: "\<forall>i La Lb cs Lc. revert i La = Inr (True, Lb) \<longrightarrow> calls execute cs Lb = Inr Lc \<longrightarrow>
            revert i Lc = Inr (False, Lc)"
    using revert_once by blast
  from lt r f1 f2 f3 f4 f5 show ?thesis by blast
qed


theorem cascade_invalidation_witness:
  "ledgerReachable (\<lambda>(p::unit) m. (True, 0, [])) (genesisLedger 0 Map.empty) \<and>
   fst (snapshot (genesisLedger 0 Map.empty)) = 1 \<and>
   fst (snapshot (snd (snapshot (genesisLedger 0 Map.empty)))) = 2 \<and>
   (\<exists>L3. revert 1 (snd (snapshot (snd (snapshot (genesisLedger 0 Map.empty))))) = Inr (True, L3) \<and>
         revert 2 L3 = Inr (False, L3) \<and> revert 1 L3 = Inr (False, L3))"
proof -
  let ?e = "\<lambda>(p::unit) (m::key \<rightharpoonup> val). (True, 0::val, []::(key \<times> val) list)"
  let ?L0 = "genesisLedger 0 Map.empty"
  let ?L1 = "snd (snapshot ?L0)"
  let ?L2 = "snd (snapshot ?L1)"
  have r: "ledgerReachable ?e ?L0" by (rule l_genesis)
  have a: "snapshot ?L0 = (1, ?L1)" by (simp add: snapshot_def genesisLedger_def)
  have b: "calls ?e [] ?L1 = Inr ?L1" by simp
  have c: "snapshot ?L1 = (2, ?L2)" by (simp add: snapshot_def genesisLedger_def)
  have d: "calls ?e [] ?L2 = Inr ?L2" by simp
  have f: "findCheckpoint 1 (checkpoints ?L2) =
             Some \<lparr> chainLength = 0, cacheHandle = cview (cache ?L0),
                    entityStates = [], entityPending = [], status = CpActive \<rparr>"
    by (simp add: findCheckpoint_def snapshot_def genesisLedger_def snapshotHandle_def)
  have g: "status \<lparr> chainLength = 0, cacheHandle = cview (cache ?L0),
                    entityStates = [], entityPending = [], status = CpActive \<rparr> = CpActive"
    by simp
  have a1: "fst (snapshot ?L0) = 1" by (simp add: snapshot_def genesisLedger_def)
  have c1: "fst (snapshot ?L1) = 2" by (simp add: snapshot_def genesisLedger_def)
  from cascade_invalidation [OF r a b c d f g]
  obtain L3 where "revert 1 ?L2 = Inr (True, L3)" "revert 2 L3 = Inr (False, L3)"
    "revert 1 L3 = Inr (False, L3)"
    by blast
  then have e: "\<exists>L3. revert 1 ?L2 = Inr (True, L3) \<and>
         revert 2 L3 = Inr (False, L3) \<and> revert 1 L3 = Inr (False, L3)"
    by blast
  show ?thesis by (intro conjI; fact)
qed

lemma evm_revert_ok:
  assumes "ledgerOk L"
  shows "ledgerOk (snd (evm_revert ident L)) \<and> (\<forall>e. fst (evm_revert ident L) \<noteq> Faulted e)"
proof (cases "classify ident")
  case (Inl r)
  with assms show ?thesis by (simp add: evm_revert_def)
next
  case (Inr i)
  from revert_total [OF assms, of i] obtain b L' where r: "revert i L = Inr (b, L')" by blast
  then have "call (\<lambda>(p::unit) m. (True, 0, [])) (Revert i) L = Inr L'" by simp
  from ledgerOk_call [OF assms this] Inr r show ?thesis by (simp add: evm_revert_def)
qed

lemma evm_revert_times_ok:
  "ledgerOk L \<Longrightarrow> Faulted e \<notin> set (fst (evm_revert_times n ident L))"
proof (induction n arbitrary: L)
  case 0
  then show ?case by simp
next
  case (Suc n)
  from evm_revert_ok [OF Suc.prems, of ident]
  have ok: "ledgerOk (snd (evm_revert ident L))" and nf: "fst (evm_revert ident L) \<noteq> Faulted e"
    by simp_all
  from Suc.IH [OF ok] nf show ?case
    by (simp add: split_def Let_def)
qed

lemma evm_revert_times_unknown:
  assumes "classify ident = Inr i" and "i < 1 \<or> int (length (checkpoints L)) < i"
  shows "evm_revert_times n ident L = (replicate n (Returned False), L)"
proof (induction n)
  case 0
  show ?case by simp
next
  case (Suc n)
  have "evm_revert ident L = (Returned False, L)"
    using assms revert_unknown [OF assms(2)] by (simp add: evm_revert_def)
  with Suc show ?case by simp
qed

text \<open>
  \<^bold>\<open>C3\<close> (classification of identifiers). At the boundary an object, a boolean, a
  non-finite number and a fraction are rejected with the encoding failure, null and
  undefined with the usage failure, which is a different one, and in both cases the
  ledger is not touched. An identifier that reads as an integer below 1 or above the
  number of checkpoints issued goes into \<^verbatim>\<open>revert\<close>, which returns false and changes
  nothing, however often it is called. No call of \<^verbatim>\<open>evm_revert\<close> on a reachable ledger
  faults, for any identifier and any number of repetitions.
\<close>

theorem revert_identifier_classification:
  assumes "ledgerReachable execute L"
  shows "(ident \<in> {IdObject, IdBoolean b, IdNonFinite, IdFraction} \<longrightarrow>
            evm_revert ident L = (Rejected EncodingError, L)) \<and>
         (ident \<in> {IdNull, IdUndefined} \<longrightarrow> evm_revert ident L = (Rejected UsageError, L)) \<and>
         Rejected EncodingError \<noteq> Rejected UsageError \<and>
         (\<forall>i. classify ident = Inr i \<longrightarrow> (i < 1 \<or> int (length (checkpoints L)) < i) \<longrightarrow>
            revert i L = Inr (False, L) \<and>
            (\<forall>n. evm_revert_times n ident L = (replicate n (Returned False), L))) \<and>
         (\<forall>n e. Faulted e \<notin> set (fst (evm_revert_times n ident L))) \<and>
         (\<forall>i. \<exists>r L'. revert i L = Inr (r, L'))"
proof -
  from ledgerOk_reachable [OF assms] have ok: "ledgerOk L" .
  have f1: "ident \<in> {IdObject, IdBoolean b, IdNonFinite, IdFraction} \<longrightarrow>
            evm_revert ident L = (Rejected EncodingError, L)"
    by (auto simp: evm_revert_def)
  have f2: "ident \<in> {IdNull, IdUndefined} \<longrightarrow> evm_revert ident L = (Rejected UsageError, L)"
    by (auto simp: evm_revert_def)
  have f3: "Rejected EncodingError \<noteq> Rejected UsageError" by simp
  have f4: "\<forall>i. classify ident = Inr i \<longrightarrow> (i < 1 \<or> int (length (checkpoints L)) < i) \<longrightarrow>
            revert i L = Inr (False, L) \<and>
            (\<forall>n. evm_revert_times n ident L = (replicate n (Returned False), L))"
    using revert_unknown evm_revert_times_unknown by blast
  have f5: "\<forall>n e. Faulted e \<notin> set (fst (evm_revert_times n ident L))"
    using evm_revert_times_ok [OF ok] by blast
  have f6: "\<forall>i. \<exists>r L'. revert i L = Inr (r, L')"
    using revert_total [OF ok] by blast
  show ?thesis by (intro conjI; fact)
qed

theorem revert_identifier_classification_witness:
  "(let L = snd (snapshot (genesisLedger 0 Map.empty))
    in ledgerReachable (\<lambda>(p::unit) m. (True, 0, [])) L \<and>
       evm_revert IdObject L = (Rejected EncodingError, L) \<and>
       evm_revert (IdBoolean True) L = (Rejected EncodingError, L) \<and>
       evm_revert IdNonFinite L = (Rejected EncodingError, L) \<and>
       evm_revert IdNull L = (Rejected UsageError, L) \<and>
       evm_revert IdUndefined L = (Rejected UsageError, L) \<and>
       evm_revert_times 3 (IdInteger (- 1)) L = ([Returned False, Returned False, Returned False], L) \<and>
       evm_revert_times 2 (IdBuffer [0]) L = ([Returned False, Returned False], L) \<and>
       evm_revert_times 1 (IdInteger 999) L = ([Returned False], L))"
proof -
  let ?e = "\<lambda>(p::unit) (m::key \<rightharpoonup> val). (True, 0::val, []::(key \<times> val) list)"
  let ?L = "snd (snapshot (genesisLedger 0 Map.empty))"
  have "call ?e Snapshot (genesisLedger 0 Map.empty) = Inr ?L" by simp
  from l_call [OF l_genesis this] have r: "ledgerReachable ?e ?L" .
  have len: "length (checkpoints ?L) = 1" by (simp add: snapshot_def genesisLedger_def)
  note T = revert_identifier_classification [OF r]
  have f1: "evm_revert IdObject ?L = (Rejected EncodingError, ?L)"
    using T [of IdObject True, THEN conjunct1] by simp
  have f2: "evm_revert (IdBoolean True) ?L = (Rejected EncodingError, ?L)"
    using T [of "IdBoolean True" True, THEN conjunct1] by simp
  have f3: "evm_revert IdNonFinite ?L = (Rejected EncodingError, ?L)"
    using T [of IdNonFinite True, THEN conjunct1] by simp
  have f4: "evm_revert IdNull ?L = (Rejected UsageError, ?L)"
    using T [of IdNull True, THEN conjunct2, THEN conjunct1] by simp
  have f5: "evm_revert IdUndefined ?L = (Rejected UsageError, ?L)"
    using T [of IdUndefined True, THEN conjunct2, THEN conjunct1] by simp
  have f6: "evm_revert_times 3 (IdInteger (- 1)) ?L = ([Returned False, Returned False, Returned False], ?L)"
    using T [of "IdInteger (- 1)" True, THEN conjunct2, THEN conjunct2, THEN conjunct2, THEN conjunct1,
        rule_format, of "- 1", THEN conjunct2, rule_format, of 3]
    by (simp add: numeral_3_eq_3)
  have f7: "evm_revert_times 2 (IdBuffer [0]) ?L = ([Returned False, Returned False], ?L)"
    using T [of "IdBuffer [0]" True, THEN conjunct2, THEN conjunct2, THEN conjunct2, THEN conjunct1,
        rule_format, of 0, THEN conjunct2, rule_format, of 2]
    by (simp add: numeral_2_eq_2 bufferValue_def)
  have f8: "evm_revert_times 1 (IdInteger 999) ?L = ([Returned False], ?L)"
    using T [of "IdInteger 999" True, THEN conjunct2, THEN conjunct2, THEN conjunct2, THEN conjunct1,
        rule_format, of 999, THEN conjunct2, rule_format, of 1] len
    by simp
  show ?thesis unfolding Let_def by (intro conjI; fact)
qed

subsection \<open>A checkpoint keeps what it captured\<close>

text \<open>
  While the checkpoint at position \<open>k\<close> is Active, it holds the chain length, the
  contents and the entities captured, and the chain still starts with the chain captured.
\<close>

definition tracks ::
  "nat \<Rightarrow> LBlock list \<Rightarrow> (key \<rightharpoonup> val) \<Rightarrow> DealState list \<Rightarrow> nat list \<Rightarrow> Ledger \<Rightarrow> bool" where
  "tracks k ch0 h0 es0 pe0 L =
     (k < length (checkpoints L) \<and>
      (status (checkpoints L ! k) = CpActive \<longrightarrow>
         chainLength (checkpoints L ! k) + 1 = length ch0 \<and>
         cacheHandle (checkpoints L ! k) = h0 \<and>
         entityStates (checkpoints L ! k) = es0 \<and>
         entityPending (checkpoints L ! k) = pe0 \<and>
         take (length ch0) (chain L) = ch0))"

lemma tracks_call:
  assumes "tracks k ch0 h0 es0 pe0 L" and "ledgerOk L" and "call execute c L = Inr L'"
  shows "tracks k ch0 h0 es0 pe0 L'"
proof -
  from assms(1) have k: "k < length (checkpoints L)" by (simp add: tracks_def)
  from call_effect [OF assms(3)]
  consider "grows L L'" | "keeps L L'" | "snapshots L L'" | t where "reverts t L L'" by blast
  then show ?thesis
  proof cases
    case 1
    then obtain b where cps: "checkpoints L' = checkpoints L" and ch: "chain L' = chain L @ [b]"
      by (auto simp: grows_def)
    show ?thesis
    proof (cases "status (checkpoints L ! k) = CpActive")
      case True
      with assms(1) have t: "take (length ch0) (chain L) = ch0"
        and rest: "chainLength (checkpoints L ! k) + 1 = length ch0"
          "cacheHandle (checkpoints L ! k) = h0"
          "entityStates (checkpoints L ! k) = es0" "entityPending (checkpoints L ! k) = pe0"
        by (simp_all add: tracks_def)
      have "length (take (length ch0) (chain L)) \<le> length (chain L)" by simp
      with t have "length ch0 \<le> length (chain L)" by simp
      with t have "take (length ch0) (chain L') = ch0" by (simp add: ch)
      with rest k show ?thesis by (simp add: tracks_def cps)
    next
      case False
      with k show ?thesis by (simp add: tracks_def cps)
    qed
  next
    case 2
    with assms(1) show ?thesis by (simp add: tracks_def keeps_def)
  next
    case 3
    with assms(1) show ?thesis by (simp add: tracks_def snapshots_def nth_append)
  next
    case 4
    let ?kt = "nat (t - 1)"
    from 4 have kt: "?kt < length (checkpoints L)"
      and at: "status (checkpoints L ! ?kt) = CpActive"
      and ch: "chain L' = take (chainLength (checkpoints L ! ?kt) + 1) (chain L)"
      and cps: "checkpoints L' = cascade t (checkpoints L)"
      by (simp_all add: reverts_def)
    have k': "k < length (checkpoints L')" using k by (simp add: cps)
    show ?thesis
    proof (cases "status (checkpoints L' ! k) = CpActive")
      case True
      with k have lt: "k < ?kt" and same: "checkpoints L' ! k = checkpoints L ! k"
        by (auto simp: cps nth_cascade split: if_splits)
      from True same have a: "status (checkpoints L ! k) = CpActive" by simp
      with assms(1) have t: "take (length ch0) (chain L) = ch0"
        and n: "chainLength (checkpoints L ! k) + 1 = length ch0"
        and h: "cacheHandle (checkpoints L ! k) = h0"
        and e: "entityStates (checkpoints L ! k) = es0" "entityPending (checkpoints L ! k) = pe0"
        by (simp_all add: tracks_def)
      from assms(2) kt at lt a
      have "chainLength (checkpoints L ! k) \<le> chainLength (checkpoints L ! ?kt)"
        by (simp add: ledgerOk_def)
      with n have "length ch0 \<le> chainLength (checkpoints L ! ?kt) + 1" by simp
      then have "take (length ch0) (chain L') = take (length ch0) (chain L)"
        by (simp add: ch min_def)
      with t have "take (length ch0) (chain L') = ch0" by simp
      with n h e k' show ?thesis by (simp add: tracks_def same)
    next
      case False
      with k' show ?thesis by (simp add: tracks_def)
    qed
  qed
qed

lemma tracks_calls:
  "tracks k ch0 h0 es0 pe0 L \<Longrightarrow> ledgerOk L \<Longrightarrow> calls execute cs L = Inr L' \<Longrightarrow>
   tracks k ch0 h0 es0 pe0 L'"
proof (induction cs arbitrary: L)
  case Nil
  then show ?case by simp
next
  case (Cons c cs)
  from Cons.prems(3) obtain L1 where c: "call execute c L = Inr L1" and cs: "calls execute cs L1 = Inr L'"
    by (cases "call execute c L") simp_all
  from Cons.IH [OF tracks_call [OF Cons.prems(1,2) c] ledgerOk_call [OF Cons.prems(2) c] cs]
  show ?case .
qed

lemma revert_restores:
  assumes "ledgerOk L0" and "snapshot L0 = (s, L1)" and "calls execute cs L1 = Inr L2"
    and "revert s L2 = Inr (True, L3)"
  shows "chain L3 = chain L0 \<and> cview (cache L3) = cview (cache L0) \<and>
         entities L3 = entities L0 \<and> pendingEntities L3 = pendingEntities L0"
proof -
  let ?k = "length (checkpoints L0)"
  from assms(2) have s: "s = int ?k + 1"
    and L1: "chain L1 = chain L0" "cache L1 = cache L0"
      "checkpoints L1 = checkpoints L0 @
         [\<lparr> chainLength = length (chain L0) - 1, cacheHandle = cview (cache L0),
            entityStates = entities L0, entityPending = pendingEntities L0,
            status = CpActive \<rparr>]"
    by (auto simp: snapshot_def snapshotHandle_def)
  from assms(1) have ne: "chain L0 \<noteq> []" by (simp add: ledgerOk_def)
  have c1: "call execute Snapshot L0 = Inr L1" using assms(2) by simp
  have ok1: "ledgerOk L1" by (rule ledgerOk_call [OF assms(1) c1])
  have t1: "tracks ?k (chain L0) (cview (cache L0)) (entities L0) (pendingEntities L0) L1"
    using ne by (simp add: tracks_def L1)
  from tracks_calls [OF t1 ok1 assms(3)]
  have t2: "tracks ?k (chain L0) (cview (cache L0)) (entities L0) (pendingEntities L0) L2" .
  from revert_cases [OF assms(4)] have rv: "reverts s L2 L3" by simp
  have k: "nat (s - 1) = ?k" using s by simp
  from rv have a: "status (checkpoints L2 ! ?k) = CpActive"
    and ch: "chain L3 = take (chainLength (checkpoints L2 ! ?k) + 1) (chain L2)"
    and cv: "cview (cache L3) = cacheHandle (checkpoints L2 ! ?k)"
    and en: "entities L3 = entityStates (checkpoints L2 ! ?k)"
      "pendingEntities L3 = entityPending (checkpoints L2 ! ?k)"
    by (simp_all add: reverts_def k)
  from t2 a show ?thesis by (simp add: tracks_def ch cv en)
qed

text \<open>
  What a client derives by submitting an operation: the receipts of the block the
  operation is mined into, and the storage as it reads afterwards.
\<close>

definition derivation ::
  "('p \<Rightarrow> (key \<rightharpoonup> val) \<Rightarrow> bool \<times> val \<times> (key \<times> val) list) \<Rightarrow> 'p \<Rightarrow> cid \<Rightarrow> Ledger
     \<Rightarrow> ledger_error + (Receipt list \<times> (key \<rightharpoonup> val))" where
  "derivation execute p self L =
     (case submitOperation execute p self L of
        Inl e \<Rightarrow> Inl e
      | Inr (r, L') \<Rightarrow> Inr (map snd (l_ops (last (chain L'))), cview (cache L')))"

lemma derivation_eq:
  "derivation execute p self L =
     (if chain L = [] then Inl SequenceError
      else Inr ([\<lparr> r_block = self, r_success = fst (execute p (cview (cache L))),
                   r_return = fst (snd (execute p (cview (cache L)))),
                   r_writes = snd (snd (execute p (cview (cache L)))) \<rparr>],
                fold (\<lambda>(k, v) m. m(k \<mapsto> v)) (snd (snd (execute p (cview (cache L))))) (cview (cache L))))"
  by (simp add: derivation_def submitOperation_eq cview_writes)

text \<open>
  \<^bold>\<open>C1\<close> (revert round trip). Let \<open>s\<close> be returned by \<^verbatim>\<open>snapshot()\<close> on a reachable
  ledger, followed by any calls (operations, block production, reads that populate the
  cache, evictions, further snapshots and reverts, entity registrations). When
  \<^verbatim>\<open>revert(s)\<close> then returns true, every receipt lookup, every storage read and the
  dependent entities (their states and the pending set) are what they were when \<open>s\<close>
  was taken, and submitting an operation gives the same receipt and the same storage as
  submitting it right after the snapshot did.
\<close>

theorem revert_round_trip:
  assumes "ledgerReachable execute L0" and "snapshot L0 = (s, L1)"
    and "calls execute cs L1 = Inr L2" and "revert s L2 = Inr (True, L3)"
  shows "(\<forall>r. getReceipt r L3 = getReceipt r L0) \<and>
         (\<forall>k. fst (readStorage k L3) = fst (readStorage k L0)) \<and>
         entities L3 = entities L0 \<and> pendingEntities L3 = pendingEntities L0 \<and>
         (\<forall>p self. derivation execute p self L3 = derivation execute p self L1)"
proof -
  from revert_restores [OF ledgerOk_reachable [OF assms(1)] assms(2,3,4)]
  have ch: "chain L3 = chain L0" and cv: "cview (cache L3) = cview (cache L0)"
    and f3: "entities L3 = entities L0" and f4: "pendingEntities L3 = pendingEntities L0"
    by simp_all
  from assms(2) have L1: "chain L1 = chain L0" "cache L1 = cache L0"
    by (auto simp: snapshot_def)
  have f1: "\<forall>r. getReceipt r L3 = getReceipt r L0" by (simp add: getReceipt_def ch)
  have f2: "\<forall>k. fst (readStorage k L3) = fst (readStorage k L0)" by (simp add: readStorage_def cv)
  have f5: "\<forall>p self. derivation execute p self L3 = derivation execute p self L1"
    by (simp add: derivation_eq ch cv L1)
  show ?thesis by (intro conjI; fact)
qed

theorem revert_round_trip_witness:
  "(let e = (\<lambda>(p::unit) (m::key \<rightharpoonup> val).
               (True, (case m 0 of None \<Rightarrow> 0 | Some v \<Rightarrow> v) + 1,
                [(0::key, (case m 0 of None \<Rightarrow> 0 | Some v \<Rightarrow> v) + 1)]));
        L0 = snd (registerDependentEntity (genesisLedger 0 [0 \<mapsto> 42]));
        L1 = snd (snapshot L0);
        L2 = projr (calls e [Submit () 1, ReadStorage 0, EvictStorage 0] L1);
        L3 = snd (projr (revert 1 L2))
    in ledgerReachable e L0 \<and>
       calls e [Submit () 1, ReadStorage 0, EvictStorage 0] L1 = Inr L2 \<and>
       revert 1 L2 = Inr (True, L3) \<and>
       fst (readStorage 0 L0) = Some 42 \<and> fst (readStorage 0 L2) = Some 43 \<and>
       fst (readStorage 0 L3) = Some 42 \<and>
       getReceipt 0 L2 \<noteq> None \<and> getReceipt 0 L3 = None \<and>
       entities L0 = [Validating] \<and> entities L2 = [Staged] \<and> entities L3 = [Validating] \<and>
       pendingEntities L3 = [0] \<and>
       derivation e () 9 L3 = derivation e () 9 L1)"
proof -
  let ?e = "\<lambda>(p::unit) (m::key \<rightharpoonup> val).
               (True, (case m 0 of None \<Rightarrow> 0 | Some v \<Rightarrow> v) + 1,
                [(0::key, (case m 0 of None \<Rightarrow> 0 | Some v \<Rightarrow> v) + 1)])"
  let ?G = "genesisLedger 0 [0 \<mapsto> 42]"
  let ?L0 = "snd (registerDependentEntity ?G)"
  let ?L1 = "snd (snapshot ?L0)"
  let ?cs = "[Submit () 1, ReadStorage 0, EvictStorage 0]"
  let ?L2 = "projr (calls ?e ?cs ?L1)"
  let ?L3 = "snd (projr (revert 1 ?L2))"
  have "call ?e RegisterEntity ?G = Inr ?L0" by simp
  from l_call [OF l_genesis this] have r: "ledgerReachable ?e ?L0" .
  have s: "snapshot ?L0 = (1, ?L1)"
    by (simp add: snapshot_def genesisLedger_def registerDependentEntity_def)
  have c: "calls ?e ?cs ?L1 = Inr ?L2"
    by (simp add: submitOperation_eq snapshot_def genesisLedger_def registerDependentEntity_def)
  have adv: "advanceAll [Validating] [0] = ([Staged], [0])"
    by (simp add: advanceAll_def advancePending.simps)
  have v2: "cview (cache ?L2) 0 = Some 43" "chain ?L2 \<noteq> []"
    "checkpoints ?L2 = [\<lparr> chainLength = 0, cacheHandle = [0 \<mapsto> 42],
        entityStates = [Validating], entityPending = [0], status = CpActive \<rparr>]"
    "getReceipt 0 ?L2 \<noteq> None" "entities ?L2 = [Staged]"
    by (simp_all add: submitOperation_eq snapshot_def genesisLedger_def readStorage_def
        evictStorage_def snapshotHandle_def getReceipt_def receiptFor_def
        registerDependentEntity_def adv)
  have rv: "revert 1 ?L2 = Inr (True, ?L3)"
    using v2 by (simp add: revert_def findCheckpoint_def truncateTo_def)
  note T = revert_round_trip [OF r s c rv]
  have g0: "getReceipt 0 ?L0 = None" "fst (readStorage 0 ?L0) = Some 42"
    "entities ?L0 = [Validating]" "pendingEntities ?L0 = [0]"
    by (simp_all add: getReceipt_def receiptFor_def genesisLedger_def readStorage_def
        registerDependentEntity_def)
  have f4: "fst (readStorage 0 ?L2) = Some 43" using v2(1) by (simp add: readStorage_def)
  have f5: "fst (readStorage 0 ?L3) = Some 42"
    using T [THEN conjunct2, THEN conjunct1, rule_format, of 0] g0 by simp
  have f7: "getReceipt 0 ?L3 = None"
    using T [THEN conjunct1, rule_format, of 0] g0 by simp
  have f9: "entities ?L3 = [Validating]"
    using T [THEN conjunct2, THEN conjunct2, THEN conjunct1] g0(3) by simp
  have f10: "pendingEntities ?L3 = [0]"
    using T [THEN conjunct2, THEN conjunct2, THEN conjunct2, THEN conjunct1] g0(4) by simp
  have f8: "derivation ?e () 9 ?L3 = derivation ?e () 9 ?L1"
    by (rule T [THEN conjunct2, THEN conjunct2, THEN conjunct2, THEN conjunct2, rule_format])
  show ?thesis unfolding Let_def
    by (intro conjI) (fact r c rv g0(2) f4 f5 v2(4) f7 g0(3) v2(5) f9 f10 f8)+
qed

end
